theory Spec2Isabelle
  imports Main "HOL-Library.AList"
begin

section \<open>Data model\<close>

text \<open>
  The records of \<open>lib/api\<close> that the layout reads. \<open>buildLayout\<close> only ever looks at
  \<open>s.id\<close>, \<open>d.source_step_id\<close> and \<open>d.target_step_id\<close>; the name is kept because the
  caller uses it, the remaining scalar attributes (durations, costs, counts) are payload
  that the layout never inspects and are left out.
\<close>

record ProcessStep =
  step_id :: int
  step_name :: string

record Dependency =
  dep_id :: int
  source_step_id :: int
  target_step_id :: int

record Position =
  pos_x :: int
  pos_y :: int

text \<open>
  A JavaScript \<open>Map\<close> keeps its keys in insertion order; \<open>set\<close> on a present key
  replaces the value in place, on an absent key appends the entry. That is
  \<^const>\<open>AList.update\<close> on an association list; \<open>get\<close> is \<^const>\<open>map_of\<close>.
\<close>

type_synonym ('k, 'v) jsmap = "('k \<times> 'v) list"

definition get_or :: "('k, 'v) jsmap \<Rightarrow> 'k \<Rightarrow> 'v \<Rightarrow> 'v" where
  \<comment> \<open>\<open>m.get(k) ?? d\<close>\<close>
  "get_or m k d = (case map_of m k of None \<Rightarrow> d | Some v \<Rightarrow> v)"

definition has :: "('k, 'v) jsmap \<Rightarrow> 'k \<Rightarrow> bool" where
  "has m k = (map_of m k \<noteq> None)"

definition keys :: "('k, 'v) jsmap \<Rightarrow> 'k list" where
  "keys m = map fst m"

section \<open>The layout constants\<close>

definition NODE_W :: int where "NODE_W = 200"
definition NODE_H :: int where "NODE_H = 100"
definition GAP_X :: int where "GAP_X = 60"
definition GAP_Y :: int where "GAP_Y = 60"

section \<open>buildLayout, phase 1: adjacency lists and in-degrees\<close>

text \<open>
  \<^verbatim>\<open>for (const s of steps) { adjOut.set(s.id, []); inDeg.set(s.id, 0); }\<close>
\<close>

definition init_step :: "ProcessStep \<Rightarrow> (int, int list) jsmap \<times> (int, int) jsmap
    \<Rightarrow> (int, int list) jsmap \<times> (int, int) jsmap" where
  "init_step s = (\<lambda>(adjOut, inDeg).
     (AList.update (step_id s) [] adjOut, AList.update (step_id s) 0 inDeg))"

text \<open>
  \<^verbatim>\<open>adjOut.get(d.source_step_id)?.push(d.target_step_id);
  inDeg.set(d.target_step_id, (inDeg.get(d.target_step_id) ?? 0) + 1);\<close>
  The push happens only when the source is a key of \<open>adjOut\<close>; the in-degree of the
  target is incremented for every dependency, whatever its endpoints are.
\<close>

definition add_dep :: "Dependency \<Rightarrow> (int, int list) jsmap \<times> (int, int) jsmap
    \<Rightarrow> (int, int list) jsmap \<times> (int, int) jsmap" where
  "add_dep d = (\<lambda>(adjOut, inDeg).
     ((case map_of adjOut (source_step_id d) of
         None \<Rightarrow> adjOut
       | Some ts \<Rightarrow> AList.update (source_step_id d) (ts @ [target_step_id d]) adjOut),
      AList.update (target_step_id d) (get_or inDeg (target_step_id d) 0 + 1) inDeg))"

definition build_graph :: "ProcessStep list \<Rightarrow> Dependency list
    \<Rightarrow> (int, int list) jsmap \<times> (int, int) jsmap" where
  "build_graph steps deps = fold add_dep deps (fold init_step steps ([], []))"

text \<open>
  \<^verbatim>\<open>for (const [id, deg] of inDeg.entries()) { if (deg === 0) queue.push(id); }\<close>
\<close>

definition seed_queue :: "(int, int) jsmap \<Rightarrow> int list" where
  "seed_queue inDeg = map fst (filter (\<lambda>(k, deg). deg = 0) inDeg)"

section \<open>buildLayout, phase 2: the Kahn-style traversal\<close>

record lstate =
  inDeg :: "(int, int) jsmap"
  level :: "(int, int) jsmap"
  levelGroups :: "(int, int list) jsmap"
  queue :: "int list"
  head :: nat

text \<open>
  The body of the inner loop, for one successor \<open>next\<close> of the node dequeued at level
  \<open>lvl\<close>:
  \<^verbatim>\<open>inDeg.set(next, (inDeg.get(next) ?? 1) - 1);
  level.set(next, Math.max(level.get(next) ?? 0, lvl + 1));
  if (inDeg.get(next) === 0) queue.push(next);\<close>
\<close>

definition relax :: "int \<Rightarrow> int \<Rightarrow> lstate \<Rightarrow> lstate" where
  "relax lvl next s =
     (let inDeg' = AList.update next (get_or (inDeg s) next 1 - 1) (inDeg s);
          level' = AList.update next (max (get_or (level s) next 0) (lvl + 1)) (level s);
          queue' = (if map_of inDeg' next = Some 0 then queue s @ [next] else queue s)
      in s\<lparr>inDeg := inDeg', level := level', queue := queue'\<rparr>)"

text \<open>
  One iteration of \<^verbatim>\<open>while (head < queue.length)\<close>; it is only run when
  \<open>head s < length (queue s)\<close>, so \<open>queue[head++]\<close> reads inside the array.
\<close>

definition visit :: "(int, int list) jsmap \<Rightarrow> lstate \<Rightarrow> lstate" where
  "visit adjOut s =
     (let ident = queue s ! head s;
          lvl = get_or (level s) ident 0;
          grp = get_or (levelGroups s) lvl [];
          s' = s\<lparr>head := head s + 1,
                 levelGroups := AList.update lvl (grp @ [ident]) (levelGroups s)\<rparr>
      in fold (relax lvl) (get_or adjOut ident []) s')"

partial_function (option) traverse :: "(int, int list) jsmap \<Rightarrow> lstate \<Rightarrow> lstate option" where
  "traverse adjOut s =
     (if head s < length (queue s) then traverse adjOut (visit adjOut s) else Some s)"

declare traverse.simps [code]

definition init_state :: "(int, int) jsmap \<Rightarrow> lstate" where
  "init_state inDeg0 =
     \<lparr>inDeg = inDeg0, level = [], levelGroups = [], queue = seed_queue inDeg0, head = 0\<rparr>"

section \<open>buildLayout, phase 3: coordinates\<close>

text \<open>
  \<^verbatim>\<open>Math.max(...Array.from(levelGroups.keys()), 0)\<close>
  \<open>maxLevel_of\<close> is the value of this call when it returns. The spread passes one call
  argument per key of \<open>levelGroups\<close>; whether the call returns at all depends on the number
  of arguments and is modelled by \<open>maxLevel_checked\<close> below.
\<close>

definition maxLevel_of :: "(int, int list) jsmap \<Rightarrow> int" where
  "maxLevel_of groups = fold max (keys groups) 0"

text \<open>
  \<^verbatim>\<open>const totalH = group.length * (NODE_H + GAP_Y) - GAP_Y;
  group.forEach((id, i) => { positions.set(id, { x: lvl * (NODE_W + GAP_X),
                                                 y: i * (NODE_H + GAP_Y) - totalH / 2 }); });\<close>
  \<open>totalH\<close> is \<open>160 * n - 60\<close>, an even number, so the JavaScript quotient \<open>totalH / 2\<close>
  is the integer \<open>totalH div 2\<close> (lemma \<open>totalH_even\<close> below).
\<close>

definition totalH :: "int list \<Rightarrow> int" where
  "totalH grp = int (length grp) * (NODE_H + GAP_Y) - GAP_Y"

definition place_node :: "int \<Rightarrow> int \<Rightarrow> nat \<times> int \<Rightarrow> (int, Position) jsmap
    \<Rightarrow> (int, Position) jsmap" where
  "place_node lvl tH = (\<lambda>(i, ident) positions.
     AList.update ident
       \<lparr>pos_x = lvl * (NODE_W + GAP_X), pos_y = int i * (NODE_H + GAP_Y) - tH div 2\<rparr>
       positions)"

definition place_group :: "int \<Rightarrow> int list \<Rightarrow> (int, Position) jsmap \<Rightarrow> (int, Position) jsmap" where
  "place_group lvl grp positions =
     fold (place_node lvl (totalH grp)) (zip [0..<length grp] grp) positions"

text \<open>\<^verbatim>\<open>for (let lvl = 0; lvl <= maxLevel; lvl++) { ... }\<close>\<close>

definition place_levels :: "(int, int list) jsmap \<Rightarrow> (int, Position) jsmap" where
  "place_levels groups =
     fold (\<lambda>lvl. place_group lvl (get_or groups lvl [])) [0..maxLevel_of groups] []"

text \<open>
  \<^verbatim>\<open>let fallbackIdx = 0;
  for (const s of steps) {
    if (!positions.has(s.id)) {
      positions.set(s.id, { x: (maxLevel + 1 + fallbackIdx) * (NODE_W + GAP_X), y: 0 });
      fallbackIdx++;
    }
  }\<close>
\<close>

definition fallback_step :: "int \<Rightarrow> ProcessStep \<Rightarrow> (int, Position) jsmap \<times> int
    \<Rightarrow> (int, Position) jsmap \<times> int" where
  "fallback_step maxLevel s = (\<lambda>(positions, fallbackIdx).
     if \<not> has positions (step_id s)
     then (AList.update (step_id s)
             \<lparr>pos_x = (maxLevel + 1 + fallbackIdx) * (NODE_W + GAP_X), pos_y = 0\<rparr> positions,
           fallbackIdx + 1)
     else (positions, fallbackIdx))"

definition place_fallback :: "int \<Rightarrow> ProcessStep list \<Rightarrow> (int, Position) jsmap
    \<Rightarrow> (int, Position) jsmap" where
  "place_fallback maxLevel steps positions =
     fst (fold (fallback_step maxLevel) steps (positions, 0))"

definition positions_of :: "ProcessStep list \<Rightarrow> lstate \<Rightarrow> (int, Position) jsmap" where
  "positions_of steps s =
     place_fallback (maxLevel_of (levelGroups s)) steps (place_levels (levelGroups s))"

section \<open>buildLayout\<close>

text \<open>
  The result is \<open>None\<close> exactly when the \<open>while\<close> loop does not return.
\<close>

definition run_traversal :: "ProcessStep list \<Rightarrow> Dependency list \<Rightarrow> lstate option" where
  "run_traversal steps deps =
     (case build_graph steps deps of (adjOut, inDeg0) \<Rightarrow> traverse adjOut (init_state inDeg0))"

definition buildLayout :: "ProcessStep list \<Rightarrow> Dependency list \<Rightarrow> (int, Position) jsmap option" where
  "buildLayout steps deps = map_option (positions_of steps) (run_traversal steps deps)"

section \<open>buildLayout with the argument limit of the engine\<close>

text \<open>
  \<^verbatim>\<open>const maxLevel = Math.max(...Array.from(levelGroups.keys()), 0);\<close>
  A JavaScript engine accepts only a bounded number of arguments in one call and raises
  \<open>RangeError\<close> when a spread exceeds the bound. The bound is a constant of the engine, not
  of the source, and is the parameter \<open>arg_limit\<close> here. The call on line 280 passes the
  keys of \<open>levelGroups\<close> and the literal \<open>0\<close>, that is \<open>length (keys groups) + 1\<close>
  arguments. Nothing in \<open>buildLayout\<close> catches the exception, so it leaves the function.
  The result is \<open>None\<close> when the \<open>while\<close> loop does not return, \<open>Some (Inl RangeError)\<close> when
  the call raises, and \<open>Some (Inr positions)\<close> when it returns the map.
\<close>

datatype js_error = RangeError

definition maxLevel_checked :: "nat \<Rightarrow> (int, int list) jsmap \<Rightarrow> js_error + int" where
  "maxLevel_checked arg_limit groups =
     (if arg_limit < length (keys groups) + 1 then Inl RangeError else Inr (maxLevel_of groups))"

definition buildLayout_checked :: "nat \<Rightarrow> ProcessStep list \<Rightarrow> Dependency list
    \<Rightarrow> (js_error + (int, Position) jsmap) option" where
  "buildLayout_checked arg_limit steps deps =
     map_option
       (\<lambda>s. case maxLevel_checked arg_limit (levelGroups s) of
               Inl e \<Rightarrow> Inl e
             | Inr maxLevel \<Rightarrow> Inr (place_fallback maxLevel steps (place_levels (levelGroups s))))
       (run_traversal steps deps)"

section \<open>Observing a layout\<close>

text \<open>
  Readers of the result: the coordinates stored for an identifier, and the bucket of
  \<open>levelGroups\<close> (the column index) that holds an identifier after the traversal.
\<close>

definition x_of :: "(int, Position) jsmap option \<Rightarrow> int \<Rightarrow> int option" where
  "x_of r k = Option.bind r (\<lambda>pos. map_option pos_x (map_of pos k))"

definition y_of :: "(int, Position) jsmap option \<Rightarrow> int \<Rightarrow> int option" where
  "y_of r k = Option.bind r (\<lambda>pos. map_option pos_y (map_of pos k))"

definition bucket_of :: "lstate option \<Rightarrow> int \<Rightarrow> int option" where
  "bucket_of r k =
     Option.bind r (\<lambda>s. map_option fst (find (\<lambda>(l, g). k \<in> set g) (levelGroups s)))"

definition step_with_id :: "int \<Rightarrow> ProcessStep" where
  "step_with_id i = \<lparr>step_id = i, step_name = []\<rparr>"

definition edge :: "int \<Rightarrow> int \<Rightarrow> Dependency" where
  "edge u v = \<lparr>dep_id = 0, source_step_id = u, target_step_id = v\<rparr>"

text \<open>The diamond \<open>A = 1, B = 2, C = 3, D = 4\<close> with edges \<open>A\<rightarrow>B, A\<rightarrow>C, B\<rightarrow>D, C\<rightarrow>D\<close>.\<close>

definition diamond_steps :: "ProcessStep list" where
  "diamond_steps = map step_with_id [1, 2, 3, 4]"

definition diamond_deps :: "Dependency list" where
  "diamond_deps = [edge 1 2, edge 1 3, edge 2 4, edge 3 4]"

section \<open>Concrete scenarios\<close>

text \<open>
  Inputs on which the theorems are instantiated: the two-node cycle \<open>A \<rightarrow> B \<rightarrow> A\<close>, two
  steps with a dependency on the identifier \<open>3\<close> that is no step (once alone, once with a
  second dependency \<open>99 \<rightarrow> 3\<close> from another identifier that is no step), the chain
  \<open>0 \<rightarrow> 1 \<rightarrow> \<dots> \<rightarrow> n - 1\<close>, a
  source \<open>0\<close> that feeds the cycle \<open>1 \<rightarrow> 2 \<rightarrow> 1\<close>, and the states and layouts that
  \<open>buildLayout\<close> computes for them and for the diamond.
\<close>

definition chain_steps :: "nat \<Rightarrow> ProcessStep list" where
  "chain_steps n = map (\<lambda>i. step_with_id (int i)) [0..<n]"

definition chain_deps :: "nat \<Rightarrow> Dependency list" where
  "chain_deps n = map (\<lambda>i. edge (int i) (int i + 1)) [0..<n - 1]"

definition cycle_steps :: "ProcessStep list" where
  "cycle_steps = map step_with_id [1, 2]"

definition cycle_deps :: "Dependency list" where
  "cycle_deps = [edge 1 2, edge 2 1]"

definition cycle_final :: lstate where
  "cycle_final =
     \<lparr>inDeg = [(1, 1), (2, 1)], level = [], levelGroups = [], queue = [], head = 0\<rparr>"

definition cycle_positions :: "(int, Position) jsmap" where
  "cycle_positions = [(1, \<lparr>pos_x = 260, pos_y = 0\<rparr>), (2, \<lparr>pos_x = 520, pos_y = 0\<rparr>)]"

definition phantom_steps :: "ProcessStep list" where
  "phantom_steps = map step_with_id [1, 2]"

definition phantom_deps :: "Dependency list" where
  "phantom_deps = [edge 1 3, edge 1 2]"

definition phantom_final :: lstate where
  "phantom_final =
     \<lparr>inDeg = [(1, 0), (2, 0), (3, 0)], level = [(3, 1), (2, 1)],
      levelGroups = [(0, [1]), (1, [3, 2])], queue = [1, 3, 2], head = 3\<rparr>"

definition phantom_positions :: "(int, Position) jsmap" where
  "phantom_positions =
     [(1, \<lparr>pos_x = 0, pos_y = - 50\<rparr>), (3, \<lparr>pos_x = 260, pos_y = - 130\<rparr>),
      (2, \<lparr>pos_x = 260, pos_y = 30\<rparr>)]"

definition blocked_steps :: "ProcessStep list" where
  "blocked_steps = map step_with_id [1, 2]"

definition blocked_deps :: "Dependency list" where
  "blocked_deps = [edge 99 3, edge 1 3, edge 1 2]"

definition lasso_steps :: "ProcessStep list" where
  "lasso_steps = map step_with_id [0, 1, 2]"

definition lasso_deps :: "Dependency list" where
  "lasso_deps = [edge 0 1, edge 1 2, edge 2 1]"

definition diamond_final :: lstate where
  "diamond_final =
     \<lparr>inDeg = [(1, 0), (2, 0), (3, 0), (4, 0)], level = [(2, 1), (3, 1), (4, 2)],
      levelGroups = [(0, [1]), (1, [2, 3]), (2, [4])], queue = [1, 2, 3, 4], head = 4\<rparr>"

definition diamond_positions :: "(int, Position) jsmap" where
  "diamond_positions =
     [(1, \<lparr>pos_x = 0, pos_y = - 50\<rparr>), (2, \<lparr>pos_x = 260, pos_y = - 130\<rparr>),
      (3, \<lparr>pos_x = 260, pos_y = 30\<rparr>), (4, \<lparr>pos_x = 520, pos_y = - 50\<rparr>)]"

definition lasso_final :: lstate where
  "lasso_final =
     \<lparr>inDeg = [(0, 0), (1, 1), (2, 1)], level = [(1, 1)],
      levelGroups = [(0, [0])], queue = [0], head = 1\<rparr>"

definition lasso_positions :: "(int, Position) jsmap" where
  "lasso_positions =
     [(0, \<lparr>pos_x = 0, pos_y = - 50\<rparr>), (1, \<lparr>pos_x = 260, pos_y = 0\<rparr>),
      (2, \<lparr>pos_x = 520, pos_y = 0\<rparr>)]"

section \<open>Graph notions of the specification\<close>

text \<open>
  The specification speaks of the edge set restricted to edges whose endpoints both exist
  in the node list, of nodes of in-degree \<open>0\<close> in that edge set, and of paths counted by
  their number of edges. These follow the specification's words; \<open>buildLayout\<close> itself
  never computes them. \<open>walk_into E n v\<close> says that some walk of \<open>n\<close> edges of \<open>E\<close> ends in
  \<open>v\<close>; when it is false for some \<open>n\<close>, no cycle leads into \<open>v\<close>.
\<close>

definition step_ids :: "ProcessStep list \<Rightarrow> int list" where
  "step_ids steps = map step_id steps"

definition into :: "Dependency list \<Rightarrow> int \<Rightarrow> Dependency list" where
  "into deps v = filter (\<lambda>d. target_step_id d = v) deps"

definition restricted_edges :: "ProcessStep list \<Rightarrow> Dependency list \<Rightarrow> (int \<times> int) list" where
  "restricted_edges steps deps =
     map (\<lambda>d. (source_step_id d, target_step_id d))
       (filter (\<lambda>d. source_step_id d \<in> set (step_ids steps) \<and> target_step_id d \<in> set (step_ids steps))
          deps)"

definition is_source :: "ProcessStep list \<Rightarrow> Dependency list \<Rightarrow> int \<Rightarrow> bool" where
  "is_source steps deps u \<longleftrightarrow>
     u \<in> set (step_ids steps) \<and> u \<notin> set (map snd (restricted_edges steps deps))"

fun path :: "(int \<times> int) list \<Rightarrow> int \<Rightarrow> nat \<Rightarrow> int \<Rightarrow> bool" where
  "path E u 0 v \<longleftrightarrow> u = v"
| "path E u (Suc n) v \<longleftrightarrow> list_ex (\<lambda>e. snd e = v \<and> path E u n (fst e)) E"

fun walk_into :: "(int \<times> int) list \<Rightarrow> nat \<Rightarrow> int \<Rightarrow> bool" where
  "walk_into E 0 v \<longleftrightarrow> True"
| "walk_into E (Suc n) v \<longleftrightarrow> list_ex (\<lambda>e. snd e = v \<and> walk_into E n (fst e)) E"

section \<open>Notions used in the proofs\<close>

text \<open>
  \<open>lev\<close> is the expression \<^verbatim>\<open>level.get(v) ?? 0\<close>. \<open>pend adjOut P v\<close> counts the
  occurrences of \<open>v\<close> in the adjacency lists of the keys outside \<open>P\<close>: the edges into
  \<open>v\<close> that the traversal has not processed yet when \<open>P\<close> is the set of dequeued nodes.
  \<open>kahn_inv\<close> is the invariant of the \<open>while\<close> loop, \<open>work\<close> its variant.
\<close>

definition pushable :: "(int, int) jsmap \<Rightarrow> int \<Rightarrow> bool" where
  "pushable I k = (1 \<le> get_or I k 1)"

definition work :: "(int, int list) jsmap \<Rightarrow> lstate \<Rightarrow> nat" where
  "work adjOut s =
     2 * card {k \<in> set (concat (map snd adjOut)). pushable (inDeg s) k}
       + (length (queue s) - head s)"

definition lev :: "lstate \<Rightarrow> int \<Rightarrow> int" where
  "lev s v = get_or (level s) v 0"

definition pend :: "(int, int list) jsmap \<Rightarrow> int set \<Rightarrow> int \<Rightarrow> nat" where
  "pend adjOut P v = count_list (concat (map snd (filter (\<lambda>e. fst e \<notin> P) adjOut))) v"

definition lev_ok :: "(int \<times> int) set \<Rightarrow> lstate \<Rightarrow> bool" where
  "lev_ok D s \<longleftrightarrow>
     (\<forall>(w, v) \<in> D. lev s w + 1 \<le> lev s v)
   \<and> (\<forall>v. lev s v = 0 \<or> (\<exists>w. (w, v) \<in> D \<and> lev s v = lev s w + 1))
   \<and> (\<forall>v. 0 \<le> lev s v)
   \<and> (\<forall>(l, g) \<in> set (levelGroups s). \<forall>q \<in> set g. lev s q = l)"

definition processed :: "lstate \<Rightarrow> int set" where
  "processed s = set (take (head s) (queue s))"

definition done_edges :: "(int, int list) jsmap \<Rightarrow> int set \<Rightarrow> (int \<times> int) set" where
  "done_edges adjOut P = {(w, v). w \<in> P \<and> v \<in> set (get_or adjOut w [])}"

definition graph_ok :: "(int, int list) jsmap \<Rightarrow> (int, int) jsmap \<Rightarrow> bool" where
  "graph_ok adjOut I0 \<longleftrightarrow>
     distinct (map fst adjOut) \<and> distinct (map fst I0)
   \<and> (\<forall>v. case map_of I0 v of None \<Rightarrow> pend adjOut {} v = 0
                             | Some d \<Rightarrow> int (pend adjOut {} v) \<le> d)"

definition kahn_inv :: "(int, int list) jsmap \<Rightarrow> (int, int) jsmap \<Rightarrow> lstate \<Rightarrow> bool" where
  "kahn_inv adjOut I0 s \<longleftrightarrow>
     head s \<le> length (queue s) \<and> distinct (queue s)
   \<and> (\<forall>v. map_of (inDeg s) v =
           map_option (\<lambda>d. d - int (pend adjOut {} v) + int (pend adjOut (processed s) v))
             (map_of I0 v))
   \<and> (\<forall>v. v \<in> set (queue s) \<longleftrightarrow> map_of (inDeg s) v = Some 0)
   \<and> lev_ok (done_edges adjOut (processed s)) s
   \<and> distinct (concat (map snd (levelGroups s)))
   \<and> set (concat (map snd (levelGroups s))) = processed s
   \<and> distinct (map fst (levelGroups s))"

definition push_adj :: "Dependency \<Rightarrow> (int, int list) jsmap \<Rightarrow> (int, int list) jsmap" where
  "push_adj d adjOut =
     (case map_of adjOut (source_step_id d) of
        None \<Rightarrow> adjOut
      | Some ts \<Rightarrow> AList.update (source_step_id d) (ts @ [target_step_id d]) adjOut)"

definition bump :: "Dependency \<Rightarrow> (int, int) jsmap \<Rightarrow> (int, int) jsmap" where
  "bump d I = AList.update (target_step_id d) (get_or I (target_step_id d) 0 + 1) I"

definition slot :: "int \<Rightarrow> int list \<Rightarrow> nat \<Rightarrow> Position" where
  "slot lvl grp i =
     \<lparr>pos_x = lvl * (NODE_W + GAP_X), pos_y = int i * (NODE_H + GAP_Y) - totalH grp div 2\<rparr>"

definition fallback_slot :: "int \<Rightarrow> nat \<Rightarrow> Position" where
  "fallback_slot maxLevel j = \<lparr>pos_x = (maxLevel + 1 + int j) * (NODE_W + GAP_X), pos_y = 0\<rparr>"

section \<open>Termination of the traversal\<close>

lemma inDeg_relax:
  "map_of (inDeg (relax lvl t s)) v =
     (if v = t then Some (get_or (inDeg s) t 1 - 1) else map_of (inDeg s) v)"
  by (simp add: relax_def Let_def update_conv')

lemma lev_relax:
  "get_or (level (relax lvl t s)) v 0 =
     (if v = t then max (get_or (level s) t 0) (lvl + 1) else get_or (level s) v 0)"
  by (simp add: relax_def Let_def get_or_def update_conv')

lemma queue_relax:
  "queue (relax lvl t s) = (if get_or (inDeg s) t 1 = 1 then queue s @ [t] else queue s)"
  by (simp add: relax_def Let_def update_conv')

lemma head_relax: "head (relax lvl t s) = head s"
  by (simp add: relax_def Let_def)

lemma levelGroups_relax: "levelGroups (relax lvl t s) = levelGroups s"
  by (simp add: relax_def Let_def)

lemma pushable_relax:
  "pushable (inDeg (relax lvl t s)) k =
     (if k = t then 2 \<le> get_or (inDeg s) t 1 else pushable (inDeg s) k)"
  by (auto simp: pushable_def get_or_def inDeg_relax)

lemma relax_work:
  assumes "finite T" "t \<in> T"
  shows "2 * card {k \<in> T. pushable (inDeg (relax lvl t s)) k} + length (queue (relax lvl t s))
         \<le> 2 * card {k \<in> T. pushable (inDeg s) k} + length (queue s)"
proof (cases "get_or (inDeg s) t 1 = 1")
  case True
  have eq: "{k \<in> T. pushable (inDeg (relax lvl t s)) k} = {k \<in> T. pushable (inDeg s) k} - {t}"
    using True by (auto simp: pushable_relax)
  have mem: "t \<in> {k \<in> T. pushable (inDeg s) k}"
    using True assms by (simp add: pushable_def)
  have "finite {k \<in> T. pushable (inDeg s) k}" using assms by simp
  then have "card ({k \<in> T. pushable (inDeg s) k} - {t}) + 1 = card {k \<in> T. pushable (inDeg s) k}"
    using mem card_Suc_Diff1 [of "{k \<in> T. pushable (inDeg s) k}" t] by simp
  then show ?thesis using True by (simp add: eq queue_relax)
next
  case False
  have "{k \<in> T. pushable (inDeg (relax lvl t s)) k} = {k \<in> T. pushable (inDeg s) k}"
    using False by (auto simp: pushable_relax) (auto simp: pushable_def)
  then show ?thesis using False by (simp add: queue_relax)
qed

lemma head_fold_relax: "head (fold (relax lvl) ts s) = head s"
  by (induction ts arbitrary: s) (simp_all add: head_relax)

lemma levelGroups_fold_relax: "levelGroups (fold (relax lvl) ts s) = levelGroups s"
  by (induction ts arbitrary: s) (simp_all add: levelGroups_relax)

lemma fold_relax_work:
  assumes "finite T" "set ts \<subseteq> T"
  shows "2 * card {k \<in> T. pushable (inDeg (fold (relax lvl) ts s)) k}
           + length (queue (fold (relax lvl) ts s))
         \<le> 2 * card {k \<in> T. pushable (inDeg s) k} + length (queue s)"
  using assms(2)
proof (induction ts arbitrary: s)
  case Nil
  show ?case by simp
next
  case (Cons t ts)
  have "t \<in> T" "set ts \<subseteq> T" using Cons.prems by auto
  from Cons.IH [OF this(2), of "relax lvl t s"] relax_work [OF assms(1) \<open>t \<in> T\<close>, of lvl s]
  show ?case by simp
qed

lemma queue_fold_relax_mono: "length (queue s) \<le> length (queue (fold (relax lvl) ts s))"
proof (induction ts arbitrary: s)
  case Nil
  show ?case by simp
next
  case (Cons t ts)
  have "length (queue s) \<le> length (queue (relax lvl t s))" by (simp add: queue_relax)
  with Cons.IH [of "relax lvl t s"] show ?case by simp
qed

lemma get_or_adj_subset: "set (get_or adjOut k []) \<subseteq> set (concat (map snd adjOut))"
proof
  fix x assume "x \<in> set (get_or adjOut k [])"
  then obtain ts where "map_of adjOut k = Some ts" "x \<in> set ts"
    by (cases "map_of adjOut k") (auto simp: get_or_def)
  then have "(k, ts) \<in> set adjOut" by (simp add: map_of_SomeD)
  with \<open>x \<in> set ts\<close> show "x \<in> set (concat (map snd adjOut))" by force
qed

lemma visit_work:
  assumes "head s < length (queue s)"
  shows "work adjOut (visit adjOut s) < work adjOut s"
proof -
  let ?T = "set (concat (map snd adjOut))"
  let ?u = "queue s ! head s"
  let ?lvl = "get_or (level s) ?u 0"
  let ?s' = "s\<lparr>head := head s + 1,
      levelGroups := AList.update ?lvl (get_or (levelGroups s) ?lvl [] @ [?u]) (levelGroups s)\<rparr>"
  let ?r = "fold (relax ?lvl) (get_or adjOut ?u []) ?s'"
  have v: "visit adjOut s = ?r" by (simp add: visit_def Let_def)
  have le: "2 * card {k \<in> ?T. pushable (inDeg ?r) k} + length (queue ?r)
          \<le> 2 * card {k \<in> ?T. pushable (inDeg s) k} + length (queue s)"
    using fold_relax_work [of ?T "get_or adjOut ?u []" ?lvl ?s'] get_or_adj_subset [of adjOut ?u]
    by simp
  have h: "head ?r = head s + 1" by (simp add: head_fold_relax)
  have mono: "length (queue s) \<le> length (queue ?r)"
    using queue_fold_relax_mono [of ?s' ?lvl "get_or adjOut ?u []"] by simp
  show ?thesis unfolding v work_def using le h mono assms by linarith
qed

lemma traverse_terminates: "\<exists>t. traverse adjOut s = Some t"
proof (induction "work adjOut s" arbitrary: s rule: less_induct)
  case less
  show ?case
  proof (cases "head s < length (queue s)")
    case True
    from less [OF visit_work [OF True]] obtain t where "traverse adjOut (visit adjOut s) = Some t" ..
    then show ?thesis using True by (subst traverse.simps) simp
  next
    case False
    then show ?thesis by (subst traverse.simps) simp
  qed
qed

lemma traverse_rule:
  assumes step: "\<And>s. P s \<Longrightarrow> head s < length (queue s) \<Longrightarrow> P (visit adjOut s)"
    and "P s" and "traverse adjOut s = Some t"
  shows "P t \<and> \<not> head t < length (queue t)"
  using assms(2,3)
proof (induction "work adjOut s" arbitrary: s rule: less_induct)
  case less
  show ?case
  proof (cases "head s < length (queue s)")
    case True
    then have "traverse adjOut (visit adjOut s) = Some t"
      using less.prems(2) by (subst (asm) traverse.simps) simp
    with less.hyps [OF visit_work [OF True] step [OF less.prems(1) True]] show ?thesis .
  next
    case False
    then have "t = s" using less.prems(2) by (subst (asm) traverse.simps) simp
    then show ?thesis using False less.prems(1) by simp
  qed
qed

section \<open>In-degree accounting\<close>

lemma pend_absent: "u \<notin> fst ` set adjOut \<Longrightarrow> pend adjOut (insert u P) v = pend adjOut P v"
proof -
  assume "u \<notin> fst ` set adjOut"
  then have "filter (\<lambda>e. fst e \<notin> insert u P) adjOut = filter (\<lambda>e. fst e \<notin> P) adjOut"
    by (intro filter_cong) auto
  then show ?thesis by (simp add: pend_def)
qed

lemma get_or_absent: "u \<notin> fst ` set m \<Longrightarrow> get_or m u d = d"
proof -
  assume "u \<notin> fst ` set m"
  then have "map_of m u = None" by (simp add: map_of_eq_None_iff)
  then show ?thesis by (simp add: get_or_def)
qed

lemma pend_insert:
  assumes "distinct (map fst adjOut)" "u \<notin> P"
  shows "pend adjOut P v = pend adjOut (insert u P) v + count_list (get_or adjOut u []) v"
  using assms(1)
proof (induction adjOut)
  case Nil
  show ?case by (simp add: pend_def get_or_def)
next
  case (Cons e rest)
  obtain w ts where e: "e = (w, ts)" by (cases e)
  have d: "w \<notin> fst ` set rest" "distinct (map fst rest)" using Cons.prems e by auto
  have step: "\<And>Q. pend (e # rest) Q v = (if w \<in> Q then 0 else count_list ts v) + pend rest Q v"
    by (simp add: pend_def e)
  show ?case
  proof (cases "w = u")
    case True
    have "pend rest (insert u P) v = pend rest P v" using d True by (simp add: pend_absent)
    moreover have "get_or (e # rest) u [] = ts" using True by (simp add: get_or_def e)
    ultimately show ?thesis using True assms(2) by (simp add: step)
  next
    case False
    have "get_or (e # rest) u [] = get_or rest u []" using False by (simp add: get_or_def e)
    then show ?thesis using False Cons.IH [OF d(2)] by (simp add: step)
  qed
qed

lemma count_list_pos: "0 < count_list xs v \<longleftrightarrow> v \<in> set xs"
  by (induction xs) auto

lemma pend_pos_iff: "0 < pend adjOut {} v \<longleftrightarrow> v \<in> set (concat (map snd adjOut))"
  unfolding pend_def by (simp only: count_list_pos) simp

lemma queue_fold_relax_prefix: "\<exists>ys. queue (fold (relax lvl) ts s) = queue s @ ys"
proof (induction ts arbitrary: s)
  case Nil
  show ?case by simp
next
  case (Cons t ts)
  obtain ys where "queue (fold (relax lvl) ts (relax lvl t s)) = queue (relax lvl t s) @ ys"
    using Cons.IH by blast
  then show ?case by (simp add: queue_relax)
qed

text \<open>The in-degree accounting across the inner loop.\<close>

lemma relax_acct:
  assumes B: "B t = Some b" "0 \<le> b"
    and I: "\<forall>v. map_of (inDeg s) v = map_option (\<lambda>d. d + int (count_list (t # rem) v)) (B v)"
    and Q: "\<forall>v. v \<in> set (queue s) \<longleftrightarrow> map_of (inDeg s) v = Some 0"
    and D: "distinct (queue s)"
  shows "\<forall>v. map_of (inDeg (relax lvl t s)) v = map_option (\<lambda>d. d + int (count_list rem v)) (B v)"
    and "\<forall>v. v \<in> set (queue (relax lvl t s)) \<longleftrightarrow> map_of (inDeg (relax lvl t s)) v = Some 0"
    and "distinct (queue (relax lvl t s))"
proof -
  have it: "map_of (inDeg s) t = Some (b + int (count_list rem t) + 1)"
    using I B by simp
  then have g: "get_or (inDeg s) t 1 = b + int (count_list rem t) + 1"
    by (simp add: get_or_def)
  have tq: "t \<notin> set (queue s)" using Q it B(2) by simp
  show "\<forall>v. map_of (inDeg (relax lvl t s)) v = map_option (\<lambda>d. d + int (count_list rem v)) (B v)"
    using I B g by (simp add: inDeg_relax)
  show "\<forall>v. v \<in> set (queue (relax lvl t s)) \<longleftrightarrow> map_of (inDeg (relax lvl t s)) v = Some 0"
    using Q tq g by (auto simp: inDeg_relax queue_relax)
  show "distinct (queue (relax lvl t s))"
    using D tq by (simp add: queue_relax)
qed

lemma fold_relax_acct:
  assumes B: "\<forall>t \<in> set rem. \<exists>b. B t = Some b" "\<forall>v b. B v = Some b \<longrightarrow> 0 \<le> b"
    and I: "\<forall>v. map_of (inDeg s) v = map_option (\<lambda>d. d + int (count_list rem v)) (B v)"
    and Q: "\<forall>v. v \<in> set (queue s) \<longleftrightarrow> map_of (inDeg s) v = Some 0"
    and D: "distinct (queue s)"
  shows "(\<forall>v. map_of (inDeg (fold (relax lvl) rem s)) v = B v)
       \<and> (\<forall>v. v \<in> set (queue (fold (relax lvl) rem s))
               \<longleftrightarrow> map_of (inDeg (fold (relax lvl) rem s)) v = Some 0)
       \<and> distinct (queue (fold (relax lvl) rem s))"
  using B(1) I Q D
proof (induction rem arbitrary: s)
  case Nil
  have "\<And>v. map_option (\<lambda>d. d) (B v) = B v" by (simp add: option.map_ident)
  with Nil show ?case by (simp add: option.map_ident)
next
  case (Cons t rem)
  obtain b where b: "B t = Some b" using Cons.prems(1) by auto
  then have b0: "0 \<le> b" using B(2) by blast
  note r = relax_acct [OF b b0 Cons.prems(2) Cons.prems(3) Cons.prems(4), of lvl]
  have "\<forall>t \<in> set rem. \<exists>b. B t = Some b" using Cons.prems(1) by simp
  from Cons.IH [OF this r] show ?case by simp
qed

section \<open>Levels and buckets across the inner loop\<close>

lemma lev_relax':
  "lev (relax lvl t s) v = (if v = t then max (lev s t) (lvl + 1) else lev s v)"
  by (simp add: lev_def lev_relax)

lemma relax_lev_ok:
  assumes ok: "lev_ok D s" and t: "t \<notin> Q" and D: "fst ` D \<subseteq> Q" and u: "u \<in> Q"
    and G: "set (concat (map snd (levelGroups s))) \<subseteq> Q" and lvl: "lev s u = lvl"
  shows "lev_ok (insert (u, t) D) (relax lvl t s)"
proof -
  let ?s' = "relax lvl t s"
  have frozen: "\<And>w. w \<in> Q \<Longrightarrow> lev ?s' w = lev s w" using t by (auto simp: lev_relax')
  have mono: "\<And>v. lev s v \<le> lev ?s' v" by (simp add: lev_relax')
  have newt: "lvl + 1 \<le> lev ?s' t" by (simp add: lev_relax')
  have nonneg: "\<And>v. 0 \<le> lev s v" using ok by (simp add: lev_ok_def)
  have c1: "\<forall>(w, v) \<in> insert (u, t) D. lev ?s' w + 1 \<le> lev ?s' v"
  proof (clarify)
    fix w v assume wv: "(w, v) \<in> insert (u, t) D"
    show "lev ?s' w + 1 \<le> lev ?s' v"
    proof (cases "(w, v) = (u, t)")
      case True
      then show ?thesis using newt frozen [OF u] lvl by simp
    next
      case False
      then have in_D: "(w, v) \<in> D" using wv by auto
      then have "w \<in> Q" using D by force
      moreover have "lev s w + 1 \<le> lev s v" using ok in_D by (auto simp: lev_ok_def)
      ultimately show ?thesis using frozen [of w] mono [of v] by simp
    qed
  qed
  have c2: "\<forall>v. lev ?s' v = 0 \<or> (\<exists>w. (w, v) \<in> insert (u, t) D \<and> lev ?s' v = lev ?s' w + 1)"
  proof
    fix v
    have old: "lev s v = 0 \<or> (\<exists>w. (w, v) \<in> D \<and> lev s v = lev s w + 1)"
      using ok by (simp add: lev_ok_def)
    show "lev ?s' v = 0 \<or> (\<exists>w. (w, v) \<in> insert (u, t) D \<and> lev ?s' v = lev ?s' w + 1)"
    proof (cases "v = t \<and> lev s t \<le> lvl + 1")
      case True
      then have "lev ?s' v = lev ?s' u + 1" using frozen [OF u] lvl by (simp add: lev_relax')
      then show ?thesis using True by blast
    next
      case False
      then have same: "lev ?s' v = lev s v" by (auto simp: lev_relax')
      show ?thesis
      proof (cases "lev s v = 0")
        case True
        then show ?thesis using same by simp
      next
        case False
        then obtain w where w: "(w, v) \<in> D" "lev s v = lev s w + 1" using old by blast
        then have "w \<in> Q" using D by force
        then show ?thesis using w same frozen [of w] by auto
      qed
    qed
  qed
  have c3: "\<forall>v. 0 \<le> lev ?s' v" using nonneg mono by (meson order_trans)
  have c4: "\<forall>(l, g) \<in> set (levelGroups ?s'). \<forall>q \<in> set g. lev ?s' q = l"
  proof (clarify)
    fix l g q assume lg: "(l, g) \<in> set (levelGroups ?s')" and q: "q \<in> set g"
    then have lg': "(l, g) \<in> set (levelGroups s)" by (simp add: levelGroups_relax)
    then have "q \<in> set (concat (map snd (levelGroups s)))" using q by force
    then have "q \<in> Q" using G by blast
    moreover have "lev s q = l" using ok lg' q by (auto simp: lev_ok_def)
    ultimately show "lev ?s' q = l" using frozen by simp
  qed
  show ?thesis unfolding lev_ok_def using c1 c2 c3 c4 by blast
qed

lemma fold_relax_lev_ok:
  assumes "lev_ok D s" and "set rem \<inter> Q = {}" and "fst ` D \<subseteq> Q" and u: "u \<in> Q"
    and "set (concat (map snd (levelGroups s))) \<subseteq> Q" and "lev s u = lvl"
  shows "lev_ok (D \<union> {u} \<times> set rem) (fold (relax lvl) rem s)"
  using assms(1,2,3,5,6)
proof (induction rem arbitrary: s D)
  case Nil
  then show ?case by simp
next
  case (Cons t rem)
  have t: "t \<notin> Q" and rem: "set rem \<inter> Q = {}" using Cons.prems(2) by auto
  have ok': "lev_ok (insert (u, t) D) (relax lvl t s)"
    by (rule relax_lev_ok [OF Cons.prems(1) t Cons.prems(3) u Cons.prems(4) Cons.prems(5)])
  have D': "fst ` insert (u, t) D \<subseteq> Q" using Cons.prems(3) u by auto
  have G': "set (concat (map snd (levelGroups (relax lvl t s)))) \<subseteq> Q"
    using Cons.prems(4) by (simp add: levelGroups_relax)
  have "u \<noteq> t" using t u by blast
  then have lvl': "lev (relax lvl t s) u = lvl" using Cons.prems(5) by (simp add: lev_relax')
  have "insert (u, t) D \<union> {u} \<times> set rem = D \<union> {u} \<times> set (t # rem)" by auto
  with Cons.IH [OF ok' rem D' G' lvl'] show ?case by simp
qed

text \<open>Appending to a bucket of \<open>levelGroups\<close>.\<close>

lemma set_bucket_push:
  "set (concat (map snd (AList.update l (get_or G l [] @ [u]) G)))
     = insert u (set (concat (map snd G)))"
proof (induction G)
  case Nil
  show ?case by (simp add: get_or_def)
next
  case (Cons e G)
  show ?case
  proof (cases "fst e = l")
    case True
    then show ?thesis by (auto simp: get_or_def)
  next
    case False
    then have "get_or (e # G) l [] = get_or G l []" by (cases e) (simp add: get_or_def)
    then show ?thesis using False Cons.IH by auto
  qed
qed

lemma distinct_bucket_push:
  assumes "distinct (concat (map snd G))" "u \<notin> set (concat (map snd G))"
  shows "distinct (concat (map snd (AList.update l (get_or G l [] @ [u]) G)))"
  using assms
proof (induction G)
  case Nil
  show ?case by (simp add: get_or_def)
next
  case (Cons e G)
  show ?case
  proof (cases "fst e = l")
    case True
    then show ?thesis using Cons.prems by (auto simp: get_or_def)
  next
    case False
    then have g: "get_or (e # G) l [] = get_or G l []" by (cases e) (simp add: get_or_def)
    have d: "distinct (concat (map snd (AList.update l (get_or G l [] @ [u]) G)))"
      using Cons by simp
    have "set (snd e) \<inter> insert u (set (concat (map snd G))) = {}"
      using Cons.prems by auto
    then have "set (snd e) \<inter> set (concat (map snd (AList.update l (get_or G l [] @ [u]) G))) = {}"
      by (simp only: set_bucket_push)
    then show ?thesis using False Cons.prems(1) g d by simp
  qed
qed

lemma bucket_push_entries:
  assumes "(k, g) \<in> set (AList.update l (get_or G l [] @ [u]) G)"
  shows "(k, g) \<in> set G \<or> (k = l \<and> (\<exists>g0. g = g0 @ [u] \<and> (g0 = [] \<or> (l, g0) \<in> set G)))"
proof -
  have "\<And>v. set (AList.update l v G) \<subseteq> insert (l, v) (set G)"
    by (induction G) auto
  then have "set (AList.update l (get_or G l [] @ [u]) G) \<subseteq> insert (l, get_or G l [] @ [u]) (set G)" .
  then have "(k, g) \<in> set G \<or> (k, g) = (l, get_or G l [] @ [u])" using assms by blast
  moreover have "get_or G l [] = [] \<or> (l, get_or G l []) \<in> set G"
    by (cases "map_of G l") (auto simp: get_or_def dest: map_of_SomeD)
  ultimately show ?thesis by auto
qed

section \<open>The loop invariant\<close>

lemma nth_notin_take: "distinct xs \<Longrightarrow> i < length xs \<Longrightarrow> xs ! i \<notin> set (take i xs)"
proof
  assume d: "distinct xs" and i: "i < length xs" and m: "xs ! i \<in> set (take i xs)"
  then obtain j where j: "j < length (take i xs)" "take i xs ! j = xs ! i"
    by (auto simp: in_set_conv_nth)
  then have "j < i" "xs ! j = xs ! i" by auto
  then show False using d i by (simp add: nth_eq_iff_index_eq)
qed

lemma done_edges_insert:
  "done_edges adjOut (insert u P) = done_edges adjOut P \<union> {u} \<times> set (get_or adjOut u [])"
  by (auto simp: done_edges_def)

lemma visit_unfold:
  "visit adjOut s =
     fold (relax (lev s (queue s ! head s))) (get_or adjOut (queue s ! head s) [])
       (s\<lparr>head := head s + 1,
          levelGroups := AList.update (lev s (queue s ! head s))
             (get_or (levelGroups s) (lev s (queue s ! head s)) [] @ [queue s ! head s])
             (levelGroups s)\<rparr>)"
  by (simp add: visit_def Let_def lev_def)

lemma visit_inv:
  assumes g: "graph_ok adjOut I0" and inv: "kahn_inv adjOut I0 s"
    and h: "head s < length (queue s)"
  shows "kahn_inv adjOut I0 (visit adjOut s)"
proof -
  define u where "u = queue s ! head s"
  define lvl where "lvl = lev s u"
  define ts where "ts = get_or adjOut u []"
  define s1 where "s1 = s\<lparr>head := head s + 1,
      levelGroups := AList.update lvl (get_or (levelGroups s) lvl [] @ [u]) (levelGroups s)\<rparr>"
  define s' where "s' = fold (relax lvl) ts s1"
  define P where "P = processed s"
  define occ where "occ = pend adjOut {}"
  have v: "visit adjOut s = s'"
    by (simp add: visit_unfold s'_def s1_def ts_def lvl_def u_def)
  have dq: "distinct (queue s)" using inv by (simp add: kahn_inv_def)
  have Is: "\<forall>v. map_of (inDeg s) v =
      map_option (\<lambda>d. d - int (occ v) + int (pend adjOut P v)) (map_of I0 v)"
    using inv by (simp add: kahn_inv_def P_def occ_def)
  have Qs: "\<forall>v. v \<in> set (queue s) \<longleftrightarrow> map_of (inDeg s) v = Some 0"
    using inv by (simp add: kahn_inv_def)
  have Ls: "lev_ok (done_edges adjOut P) s" using inv by (simp add: kahn_inv_def P_def)
  have Gs: "distinct (concat (map snd (levelGroups s)))"
    "set (concat (map snd (levelGroups s))) = P" "distinct (map fst (levelGroups s))"
    using inv by (simp_all add: kahn_inv_def P_def)
  have uP: "u \<notin> P" unfolding P_def processed_def u_def by (rule nth_notin_take [OF dq h])
  have uq: "u \<in> set (queue s)" unfolding u_def using h by simp
  have take_Suc: "take (head s + 1) (queue s) = take (head s) (queue s) @ [u]"
    unfolding u_def using h by (simp add: take_Suc_conv_app_nth)
  have Pq: "P \<subseteq> set (queue s)" unfolding P_def processed_def by (rule set_take_subset)
  have pendP: "\<And>x. pend adjOut P x = pend adjOut (insert u P) x + count_list ts x"
    unfolding ts_def using g uP by (intro pend_insert) (simp add: graph_ok_def)
  have I0_cases: "\<And>x. case map_of I0 x of None \<Rightarrow> occ x = 0 | Some d \<Rightarrow> int (occ x) \<le> d"
    unfolding occ_def using g by (simp add: graph_ok_def)
  \<comment> \<open>successors of \<open>u\<close> are not yet in the queue\<close>
  have ts_keys: "\<And>t. t \<in> set ts \<Longrightarrow> \<exists>d. map_of I0 t = Some d \<and> int (occ t) \<le> d"
  proof -
    fix t assume t: "t \<in> set ts"
    then have "t \<in> set (concat (map snd adjOut))"
      unfolding ts_def using get_or_adj_subset [of adjOut u] by auto
    then have "0 < occ t" unfolding occ_def by (simp add: pend_pos_iff)
    then show "\<exists>d. map_of I0 t = Some d \<and> int (occ t) \<le> d"
      using I0_cases [of t] by (cases "map_of I0 t") auto
  qed
  have ts_q: "set ts \<inter> set (queue s) = {}"
  proof -
    have "\<And>t. t \<in> set ts \<Longrightarrow> t \<notin> set (queue s)"
    proof -
      fix t assume t: "t \<in> set ts"
      obtain d where d: "map_of I0 t = Some d" "int (occ t) \<le> d" using ts_keys [OF t] by blast
      have "0 < count_list ts t" using t by (simp add: count_list_pos)
      then have "0 < pend adjOut P t" using pendP [of t] by simp
      then have "map_of (inDeg s) t \<noteq> Some 0" using Is d by simp
      then show "t \<notin> set (queue s)" using Qs by simp
    qed
    then show ?thesis by blast
  qed
  \<comment> \<open>the in-degree accounting\<close>
  define B where "B = (\<lambda>x. map_option (\<lambda>d. d - int (occ x) + int (pend adjOut (insert u P) x))
      (map_of I0 x))"
  have B1: "\<forall>t \<in> set ts. \<exists>b. B t = Some b" using ts_keys by (auto simp: B_def)
  have B2: "\<forall>x b. B x = Some b \<longrightarrow> 0 \<le> b"
  proof (intro allI impI)
    fix x b assume "B x = Some b"
    then obtain d where "map_of I0 x = Some d" "b = d - int (occ x) + int (pend adjOut (insert u P) x)"
      by (auto simp: B_def)
    then show "0 \<le> b" using I0_cases [of x] by simp
  qed
  have I1: "\<forall>x. map_of (inDeg s1) x = map_option (\<lambda>d. d + int (count_list ts x)) (B x)"
  proof
    fix x
    have "map_of (inDeg s1) x = map_option (\<lambda>d. d - int (occ x) + int (pend adjOut P x)) (map_of I0 x)"
      using Is by (simp add: s1_def)
    also have "\<dots> = map_option (\<lambda>d. d + int (count_list ts x)) (B x)"
      by (cases "map_of I0 x") (simp_all add: B_def pendP [of x])
    finally show "map_of (inDeg s1) x = map_option (\<lambda>d. d + int (count_list ts x)) (B x)" .
  qed
  have Q1: "\<forall>x. x \<in> set (queue s1) \<longleftrightarrow> map_of (inDeg s1) x = Some 0"
    using Qs by (simp add: s1_def)
  have D1: "distinct (queue s1)" using dq by (simp add: s1_def)
  note acct = fold_relax_acct [OF B1 B2 I1 Q1 D1, of lvl, folded s'_def]
  \<comment> \<open>queue and head\<close>
  obtain ys where ys: "queue s' = queue s @ ys"
    using queue_fold_relax_prefix [of lvl ts s1] by (auto simp: s'_def s1_def)
  have hd': "head s' = head s + 1" by (simp add: s'_def head_fold_relax s1_def)
  have P': "processed s' = insert u P"
    using h take_Suc by (simp add: processed_def hd' ys P_def)
  \<comment> \<open>levels\<close>
  have G1eq: "levelGroups s1 =
      AList.update lvl (get_or (levelGroups s) lvl [] @ [u]) (levelGroups s)"
    by (simp add: s1_def)
  have G1set: "set (concat (map snd (levelGroups s1))) = insert u P"
    unfolding G1eq set_bucket_push Gs(2) ..
  have L1: "lev_ok (done_edges adjOut P) s1"
  proof -
    have same: "\<And>x. lev s1 x = lev s x" by (simp add: lev_def s1_def)
    have "\<forall>(l, g) \<in> set (levelGroups s1). \<forall>q \<in> set g. lev s q = l"
    proof (clarify)
      fix l g q assume lg: "(l, g) \<in> set (levelGroups s1)" and q: "q \<in> set g"
      from lg have "(l, g) \<in> set (AList.update lvl (get_or (levelGroups s) lvl [] @ [u]) (levelGroups s))"
        by (simp add: s1_def)
      from bucket_push_entries [OF this]
      consider "(l, g) \<in> set (levelGroups s)"
        | g0 where "l = lvl" "g = g0 @ [u]" "g0 = [] \<or> (lvl, g0) \<in> set (levelGroups s)"
        by blast
      then show "lev s q = l"
      proof cases
        case 1
        then show ?thesis using Ls q by (auto simp: lev_ok_def)
      next
        case 2
        show ?thesis
        proof (cases "q = u")
          case True
          then show ?thesis using 2 by (simp add: lvl_def)
        next
          case False
          then have "q \<in> set g0" "(lvl, g0) \<in> set (levelGroups s)" using 2 q by auto
          then show ?thesis using Ls 2 by (auto simp: lev_ok_def)
        qed
      qed
    qed
    then show ?thesis using Ls unfolding lev_ok_def by (simp add: same)
  qed
  have tsQ: "set ts \<inter> insert u P = {}" using ts_q uq Pq by blast
  have DQ: "fst ` done_edges adjOut P \<subseteq> insert u P" by (auto simp: done_edges_def)
  have lvl1: "lev s1 u = lvl" by (simp add: lev_def s1_def lvl_def)
  have L': "lev_ok (done_edges adjOut (insert u P)) s'"
    using fold_relax_lev_ok [OF L1 tsQ DQ _ _ lvl1] G1set
    by (simp add: s'_def done_edges_insert ts_def)
  \<comment> \<open>buckets\<close>
  have G': "levelGroups s' = levelGroups s1" by (simp add: s'_def levelGroups_fold_relax)
  have "u \<notin> set (concat (map snd (levelGroups s)))" unfolding Gs(2) by (rule uP)
  then have G'd: "distinct (concat (map snd (levelGroups s1)))"
    unfolding G1eq by (rule distinct_bucket_push [OF Gs(1)])
  have G'k: "distinct (map fst (levelGroups s1))"
    unfolding G1eq by (rule distinct_update [OF Gs(3)])
  show ?thesis
    unfolding v kahn_inv_def P' G'
    using acct hd' h ys L' G1set G'd G'k by (simp add: B_def occ_def)
qed

section \<open>The graph built from the input\<close>

lemma fold_add_dep: "fold add_dep deps (A, I) = (fold push_adj deps A, fold bump deps I)"
  by (induction deps arbitrary: A I) (simp_all add: add_dep_def push_adj_def bump_def)

lemma fold_init_step:
  "fold init_step steps (A, I) =
     (fold (\<lambda>s. AList.update (step_id s) []) steps A, fold (\<lambda>s. AList.update (step_id s) 0) steps I)"
  by (induction steps arbitrary: A I) (simp_all add: init_step_def)

lemma build_graph_unfold:
  "build_graph steps deps =
     (fold push_adj deps (fold (\<lambda>s. AList.update (step_id s) []) steps []),
      fold bump deps (fold (\<lambda>s. AList.update (step_id s) 0) steps []))"
  by (simp add: build_graph_def fold_init_step fold_add_dep)

text \<open>After the first loop: every step identifier is a key, with the initial value.\<close>

lemma map_of_fold_init:
  "map_of (fold (\<lambda>s. AList.update (step_id s) c) steps m) k =
     (if k \<in> set (step_ids steps) then Some c else map_of m k)"
  by (induction steps arbitrary: m) (auto simp: step_ids_def update_conv')

lemma distinct_fold_init:
  "distinct (map fst m) \<Longrightarrow> distinct (map fst (fold (\<lambda>s. AList.update (step_id s) c) steps m))"
  by (induction steps arbitrary: m) (simp_all add: distinct_update)

lemma set_update_subset: "set (AList.update k v al) \<subseteq> insert (k, v) (set al)"
  by (induction al) auto

lemma values_fold_init:
  "\<forall>e \<in> set m. snd e = c \<Longrightarrow> \<forall>e \<in> set (fold (\<lambda>s. AList.update (step_id s) c) steps m). snd e = c"
proof (induction steps arbitrary: m)
  case Nil
  then show ?case by simp
next
  case (Cons s steps)
  have "\<forall>e \<in> set (AList.update (step_id s) c m). snd e = c"
    using Cons.prems set_update_subset [of "step_id s" c m] by auto
  from Cons.IH [OF this] show ?case by simp
qed

text \<open>The second loop, adjacency side.\<close>

lemma keys_push_adj: "map fst (push_adj d A) = map fst A"
proof (cases "map_of A (source_step_id d)")
  case None
  then show ?thesis by (simp add: push_adj_def)
next
  case (Some ts)
  then have "source_step_id d \<in> set (map fst A)"
    by (metis map_of_eq_None_iff option.distinct(1) set_map)
  then show ?thesis using Some by (simp add: push_adj_def update_keys)
qed

lemma keys_fold_push_adj: "map fst (fold push_adj deps A) = map fst A"
  by (induction deps arbitrary: A) (simp_all add: keys_push_adj)

lemma map_of_push_adj:
  "map_of (push_adj d A) u =
     map_option (\<lambda>ts. if source_step_id d = u then ts @ [target_step_id d] else ts) (map_of A u)"
proof (cases "map_of A (source_step_id d)")
  case None
  then have "map_option (\<lambda>ts. if source_step_id d = u then ts @ [target_step_id d] else ts)
      (map_of A u) = map_of A u"
    by (cases "source_step_id d = u") (simp_all add: option.map_ident)
  then show ?thesis using None by (simp add: push_adj_def)
next
  case (Some ts)
  then show ?thesis
    by (cases "source_step_id d = u") (simp_all add: push_adj_def update_conv' option.map_ident)
qed

lemma map_of_fold_push_adj:
  "map_of (fold push_adj deps A) u =
     map_option (\<lambda>ts. ts @ map target_step_id (filter (\<lambda>d. source_step_id d = u) deps)) (map_of A u)"
proof (induction deps arbitrary: A)
  case Nil
  show ?case by (simp add: option.map_ident)
next
  case (Cons d deps)
  show ?case
    by (cases "map_of A u") (simp_all add: Cons.IH map_of_push_adj)
qed

lemma occ_update_append:
  "map_of A k = Some ts \<Longrightarrow>
     count_list (concat (map snd (AList.update k (ts @ [t]) A))) v
       = count_list (concat (map snd A)) v + (if t = v then 1 else 0)"
proof (induction A)
  case Nil
  then show ?case by simp
next
  case (Cons e A)
  show ?case
  proof (cases "fst e = k")
    case True
    then have "snd e = ts" using Cons.prems by (cases e) simp
    then show ?thesis using True by simp
  next
    case False
    then have "map_of A k = Some ts" using Cons.prems by (cases e) simp
    from Cons.IH [OF this] show ?thesis using False by simp
  qed
qed

lemma occ_push_adj:
  "pend (push_adj d A) {} v =
     pend A {} v + (if target_step_id d = v \<and> source_step_id d \<in> fst ` set A then 1 else 0)"
proof (cases "map_of A (source_step_id d)")
  case None
  then have "source_step_id d \<notin> fst ` set A" by (simp add: map_of_eq_None_iff)
  then show ?thesis using None by (simp add: push_adj_def)
next
  case (Some ts)
  then have "source_step_id d \<in> fst ` set A"
    by (metis map_of_eq_None_iff option.distinct(1))
  then show ?thesis using Some occ_update_append [OF Some, of "target_step_id d" v]
    by (simp add: push_adj_def pend_def)
qed

lemma occ_fold_push_adj:
  "pend (fold push_adj deps A) {} v =
     pend A {} v + length (filter (\<lambda>d. source_step_id d \<in> fst ` set A) (into deps v))"
proof (induction deps arbitrary: A)
  case Nil
  show ?case by (simp add: into_def)
next
  case (Cons d deps)
  have k: "fst ` set (push_adj d A) = fst ` set A"
    using keys_push_adj [of d A] by (metis set_map)
  show ?case using Cons.IH [of "push_adj d A"]
    by (simp add: occ_push_adj k into_def)
qed

text \<open>The second loop, in-degree side.\<close>

lemma map_of_bump:
  "map_of (bump d I) v =
     (if target_step_id d = v then Some (get_or I v 0 + 1) else map_of I v)"
  by (auto simp: bump_def update_conv')

lemma map_of_fold_bump:
  "map_of (fold bump deps I) v =
     (if into deps v = [] then map_of I v else Some (get_or I v 0 + int (length (into deps v))))"
proof (induction deps arbitrary: I)
  case Nil
  show ?case by (simp add: into_def)
next
  case (Cons d deps)
  show ?case
  proof (cases "target_step_id d = v")
    case True
    then have "get_or (bump d I) v 0 = get_or I v 0 + 1" "map_of (bump d I) v = Some (get_or I v 0 + 1)"
      by (simp_all add: get_or_def map_of_bump)
    then show ?thesis using True by (simp add: Cons.IH into_def)
  next
    case False
    then have "get_or (bump d I) v 0 = get_or I v 0" "map_of (bump d I) v = map_of I v"
      by (simp_all add: get_or_def map_of_bump)
    then show ?thesis using False by (simp add: Cons.IH into_def)
  qed
qed

lemma distinct_fold_bump: "distinct (map fst I) \<Longrightarrow> distinct (map fst (fold bump deps I))"
  by (induction deps arbitrary: I) (simp_all add: bump_def distinct_update)

text \<open>The graph handed to the traversal.\<close>

lemma build_graph_adj:
  assumes "build_graph steps deps = (adjOut, I0)"
  shows "map_of adjOut u =
           (if u \<in> set (step_ids steps)
            then Some (map target_step_id (filter (\<lambda>d. source_step_id d = u) deps)) else None)"
    and "distinct (map fst adjOut)"
    and "fst ` set adjOut = set (step_ids steps)"
    and "pend adjOut {} v = length (filter (\<lambda>d. source_step_id d \<in> set (step_ids steps)) (into deps v))"
proof -
  let ?A = "fold (\<lambda>s. AList.update (step_id s) ([]::int list)) steps []"
  have A: "adjOut = fold push_adj deps ?A" using assms by (simp add: build_graph_unfold)
  have mA: "\<And>k. map_of ?A k = (if k \<in> set (step_ids steps) then Some [] else None)"
    by (simp add: map_of_fold_init)
  show "map_of adjOut u =
           (if u \<in> set (step_ids steps)
            then Some (map target_step_id (filter (\<lambda>d. source_step_id d = u) deps)) else None)"
    by (simp add: A map_of_fold_push_adj mA)
  have dA: "distinct (map fst ?A)" by (rule distinct_fold_init) simp
  then show "distinct (map fst adjOut)" by (simp add: A keys_fold_push_adj)
  have "\<And>k. k \<in> fst ` set ?A \<longleftrightarrow> k \<in> set (step_ids steps)"
    using mA by (metis map_of_eq_None_iff option.distinct(1))
  then have kA: "fst ` set ?A = set (step_ids steps)" by blast
  have "fst ` set adjOut = fst ` set ?A"
    using keys_fold_push_adj [of deps ?A] unfolding A by (metis set_map)
  then show "fst ` set adjOut = set (step_ids steps)" using kA by simp
  have "\<forall>e \<in> set ?A. snd e = []" by (rule values_fold_init) simp
  then have "concat (map snd ?A) = []" by simp
  then have "pend ?A {} v = 0" by (simp add: pend_def)
  then show "pend adjOut {} v = length (filter (\<lambda>d. source_step_id d \<in> set (step_ids steps)) (into deps v))"
    by (simp add: A occ_fold_push_adj kA)
qed

lemma build_graph_inDeg:
  assumes "build_graph steps deps = (adjOut, I0)"
  shows "map_of I0 v =
           (if v \<in> set (step_ids steps) \<or> into deps v \<noteq> []
            then Some (int (length (into deps v))) else None)"
    and "distinct (map fst I0)"
proof -
  let ?I = "fold (\<lambda>s. AList.update (step_id s) (0::int)) steps []"
  have I: "I0 = fold bump deps ?I" using assms by (simp add: build_graph_unfold)
  have mI: "\<And>k. map_of ?I k = (if k \<in> set (step_ids steps) then Some 0 else None)"
    by (simp add: map_of_fold_init)
  then have "get_or ?I v 0 = 0" by (simp add: get_or_def)
  then show "map_of I0 v =
           (if v \<in> set (step_ids steps) \<or> into deps v \<noteq> []
            then Some (int (length (into deps v))) else None)"
    by (simp add: I map_of_fold_bump mI)
  have "distinct (map fst ?I)" by (rule distinct_fold_init) simp
  then show "distinct (map fst I0)" unfolding I by (rule distinct_fold_bump)
qed

lemma build_graph_ok:
  assumes "build_graph steps deps = (adjOut, I0)"
  shows "graph_ok adjOut I0"
proof -
  note a = build_graph_adj [OF assms] and i = build_graph_inDeg [OF assms]
  have "\<And>v. case map_of I0 v of None \<Rightarrow> pend adjOut {} v = 0
                             | Some d \<Rightarrow> int (pend adjOut {} v) \<le> d"
  proof -
    fix v
    have le: "pend adjOut {} v \<le> length (into deps v)" by (simp add: a(4))
    show "case map_of I0 v of None \<Rightarrow> pend adjOut {} v = 0
                             | Some d \<Rightarrow> int (pend adjOut {} v) \<le> d"
    proof (cases "v \<in> set (step_ids steps) \<or> into deps v \<noteq> []")
      case True
      then show ?thesis using le by (simp add: i(1))
    next
      case False
      then show ?thesis using le by (simp add: i(1))
    qed
  qed
  then show ?thesis using a(2) i(2) by (simp add: graph_ok_def)
qed

section \<open>The state in which the traversal stops\<close>

lemma init_inv:
  assumes "graph_ok adjOut I0"
  shows "kahn_inv adjOut I0 (init_state I0)"
proof -
  have d: "distinct (map fst I0)" using assms by (simp add: graph_ok_def)
  have p: "processed (init_state I0) = {}" by (simp add: processed_def init_state_def)
  have q: "\<And>v. v \<in> set (seed_queue I0) \<longleftrightarrow> map_of I0 v = Some 0"
    using d by (force simp: seed_queue_def)
  have dq: "distinct (seed_queue I0)"
    unfolding seed_queue_def using d by (rule distinct_map_filter)
  have l: "lev_ok (done_edges adjOut {}) (init_state I0)"
    by (simp add: lev_ok_def lev_def init_state_def get_or_def done_edges_def)
  have i: "\<And>v. map_of I0 v = map_option (\<lambda>d. d - int (pend adjOut {} v) + int (pend adjOut {} v)) (map_of I0 v)"
    by (simp add: option.map_ident)
  show ?thesis
    unfolding kahn_inv_def p using q dq l i by (simp add: init_state_def)
qed

lemma run_traversal_terminates: "\<exists>s. run_traversal steps deps = Some s"
  by (cases "build_graph steps deps") (simp add: run_traversal_def traverse_terminates)

lemma run_traversal_inv:
  assumes "run_traversal steps deps = Some s" and bg: "build_graph steps deps = (adjOut, I0)"
  shows "kahn_inv adjOut I0 s" and "head s = length (queue s)"
proof -
  have t: "traverse adjOut (init_state I0) = Some s" using assms by (simp add: run_traversal_def)
  have g: "graph_ok adjOut I0" by (rule build_graph_ok [OF bg])
  have "kahn_inv adjOut I0 s \<and> \<not> head s < length (queue s)"
    by (rule traverse_rule [where P = "kahn_inv adjOut I0", OF visit_inv [OF g] init_inv [OF g] t])
  then show "kahn_inv adjOut I0 s" and "head s = length (queue s)"
    by (auto simp: kahn_inv_def)
qed

lemma pend_zero:
  assumes "pend adjOut P v = 0" "w \<notin> P"
  shows "v \<notin> set (get_or adjOut w [])"
proof
  assume v: "v \<in> set (get_or adjOut w [])"
  then obtain ts where ts: "map_of adjOut w = Some ts" "v \<in> set ts"
    by (cases "map_of adjOut w") (auto simp: get_or_def)
  then have "(w, ts) \<in> set (filter (\<lambda>e. fst e \<notin> P) adjOut)"
    using assms(2) by (simp add: map_of_SomeD)
  then have "v \<in> set (concat (map snd (filter (\<lambda>e. fst e \<notin> P) adjOut)))"
    using ts(2) by force
  then have "0 < pend adjOut P v" unfolding pend_def by (simp only: count_list_pos)
  then show False using assms(1) by simp
qed

text \<open>What holds of the state in which the traversal stops.\<close>

lemma final_queue:
  assumes "run_traversal steps deps = Some s"
  shows "distinct (queue s)" and "head s = length (queue s)" and "processed s = set (queue s)"
proof -
  obtain adjOut I0 where bg: "build_graph steps deps = (adjOut, I0)" by (cases "build_graph steps deps")
  note r = run_traversal_inv [OF assms bg]
  show "distinct (queue s)" using r(1) by (simp add: kahn_inv_def)
  show "head s = length (queue s)" by (rule r(2))
  then show "processed s = set (queue s)" by (simp add: processed_def)
qed

lemma final_groups:
  assumes "run_traversal steps deps = Some s"
  shows "distinct (concat (map snd (levelGroups s)))"
    and "set (concat (map snd (levelGroups s))) = set (queue s)"
    and "distinct (map fst (levelGroups s))"
    and "\<And>l g q. (l, g) \<in> set (levelGroups s) \<Longrightarrow> q \<in> set g \<Longrightarrow> lev s q = l"
    and "\<And>v. 0 \<le> lev s v"
proof -
  obtain adjOut I0 where bg: "build_graph steps deps = (adjOut, I0)" by (cases "build_graph steps deps")
  note r = run_traversal_inv [OF assms bg] and f = final_queue [OF assms]
  show "distinct (concat (map snd (levelGroups s)))" using r(1) by (simp add: kahn_inv_def)
  show "set (concat (map snd (levelGroups s))) = set (queue s)"
    using r(1) unfolding kahn_inv_def f(3) by blast
  show "distinct (map fst (levelGroups s))" using r(1) by (simp add: kahn_inv_def)
  have l: "lev_ok (done_edges adjOut (processed s)) s" using r(1) by (simp add: kahn_inv_def)
  show "\<And>l g q. (l, g) \<in> set (levelGroups s) \<Longrightarrow> q \<in> set g \<Longrightarrow> lev s q = l"
    using l unfolding lev_ok_def by blast
  show "\<And>v. 0 \<le> lev s v" using l unfolding lev_ok_def by blast
qed

lemma final_preds:
  assumes run: "run_traversal steps deps = Some s" and v: "v \<in> set (queue s)"
    and d: "d \<in> set deps" "target_step_id d = v"
  shows "source_step_id d \<in> set (step_ids steps)"
    and "source_step_id d \<in> set (queue s)"
    and "lev s (source_step_id d) + 1 \<le> lev s v"
proof -
  obtain adjOut I0 where bg: "build_graph steps deps = (adjOut, I0)" by (cases "build_graph steps deps")
  note r = run_traversal_inv [OF run bg] and f = final_queue [OF run]
  note a = build_graph_adj [OF bg] and i = build_graph_inDeg [OF bg]
  have dv: "d \<in> set (into deps v)" using d by (simp add: into_def)
  then have ne: "into deps v \<noteq> []" by auto
  have I0v: "map_of I0 v = Some (int (length (into deps v)))" using ne by (simp add: i(1))
  have "map_of (inDeg s) v = Some 0" using r(1) v by (simp add: kahn_inv_def)
  moreover have "map_of (inDeg s) v =
      Some (int (length (into deps v)) - int (pend adjOut {} v) + int (pend adjOut (set (queue s)) v))"
    using r(1) I0v unfolding kahn_inv_def f(3) by simp
  ultimately have z: "int (length (into deps v)) - int (pend adjOut {} v)
      + int (pend adjOut (set (queue s)) v) = 0" by simp
  have le: "pend adjOut {} v \<le> length (into deps v)" by (simp add: a(4))
  from z le have p0: "pend adjOut (set (queue s)) v = 0"
    and all: "length (filter (\<lambda>d. source_step_id d \<in> set (step_ids steps)) (into deps v))
        = length (into deps v)"
    unfolding a(4) by linarith+
  from all have "\<forall>d \<in> set (into deps v). source_step_id d \<in> set (step_ids steps)"
    by (metis filter_id_conv length_filter_less less_irrefl_nat) 
  then show src: "source_step_id d \<in> set (step_ids steps)" using dv by blast
  have "v \<in> set (get_or adjOut (source_step_id d) [])"
    using src d by (force simp: get_or_def a(1))
  then show q: "source_step_id d \<in> set (queue s)" using pend_zero [OF p0] by blast
  have l: "lev_ok (done_edges adjOut (set (queue s))) s"
    using r(1) unfolding kahn_inv_def f(3) by blast
  have "(source_step_id d, v) \<in> done_edges adjOut (set (queue s))"
    using q \<open>v \<in> set (get_or adjOut (source_step_id d) [])\<close> by (simp add: done_edges_def)
  then show "lev s (source_step_id d) + 1 \<le> lev s v" using l unfolding lev_ok_def by blast
qed

lemma final_level_witness:
  assumes run: "run_traversal steps deps = Some s" and "lev s v \<noteq> 0"
  shows "\<exists>d \<in> set deps. target_step_id d = v \<and> source_step_id d \<in> set (step_ids steps)
           \<and> source_step_id d \<in> set (queue s) \<and> lev s v = lev s (source_step_id d) + 1"
proof -
  obtain adjOut I0 where bg: "build_graph steps deps = (adjOut, I0)" by (cases "build_graph steps deps")
  note r = run_traversal_inv [OF run bg] and f = final_queue [OF run]
  note a = build_graph_adj [OF bg]
  have l: "lev_ok (done_edges adjOut (set (queue s))) s"
    using r(1) unfolding kahn_inv_def f(3) by blast
  then obtain w where w: "(w, v) \<in> done_edges adjOut (set (queue s))" "lev s v = lev s w + 1"
    using assms(2) unfolding lev_ok_def by blast
  then have wq: "w \<in> set (queue s)" and vw: "v \<in> set (get_or adjOut w [])"
    by (simp_all add: done_edges_def)
  from vw have ws: "w \<in> set (step_ids steps)"
    by (cases "w \<in> set (step_ids steps)") (simp_all add: get_or_def a(1))
  with vw obtain d where "d \<in> set deps" "source_step_id d = w" "target_step_id d = v"
    by (auto simp: get_or_def a(1))
  then show ?thesis using ws wq w(2) by blast
qed

section \<open>Placing the buckets and the fallback nodes\<close>

lemma fold_max_ge: "(a::int) \<le> fold max xs a \<and> (\<forall>x \<in> set xs. x \<le> fold max xs a)"
proof (induction xs arbitrary: a)
  case Nil
  show ?case by simp
next
  case (Cons x xs)
  from Cons.IH [of "max x a"] show ?case by auto
qed

lemma maxLevel_of_ge: "0 \<le> maxLevel_of G" "(l, g) \<in> set G \<Longrightarrow> l \<le> maxLevel_of G"
proof -
  show "0 \<le> maxLevel_of G" using fold_max_ge [of 0 "keys G"] by (simp add: maxLevel_of_def)
  assume "(l, g) \<in> set G"
  then have "l \<in> set (keys G)" by (force simp: keys_def)
  then show "l \<le> maxLevel_of G" using fold_max_ge [of 0 "keys G"] by (simp add: maxLevel_of_def)
qed

text \<open>One bucket.\<close>

lemma place_nodes_other:
  "k \<notin> set g \<Longrightarrow> map_of (fold (place_node l tH) (enumerate a g) acc) k = map_of acc k"
  by (induction g arbitrary: a acc) (simp_all add: place_node_def update_conv')

lemma place_nodes_nth:
  "distinct g \<Longrightarrow> i < length g \<Longrightarrow>
     map_of (fold (place_node l tH) (enumerate a g) acc) (g ! i)
       = Some \<lparr>pos_x = l * (NODE_W + GAP_X), pos_y = int (a + i) * (NODE_H + GAP_Y) - tH div 2\<rparr>"
proof (induction g arbitrary: a acc i)
  case Nil
  then show ?case by simp
next
  case (Cons q g)
  show ?case
  proof (cases i)
    case 0
    have "q \<notin> set g" using Cons.prems(1) by simp
    then show ?thesis using 0
      by (simp add: place_nodes_other) (simp add: place_node_def update_conv')
  next
    case (Suc j)
    then have "j < length g" "distinct g" using Cons.prems by auto
    from Cons.IH [OF this(2,1), of "Suc a"] show ?thesis using Suc by simp
  qed
qed

lemma place_nodes_dom:
  "map_of (fold (place_node l tH) (enumerate a g) acc) k \<noteq> None
     \<longleftrightarrow> k \<in> set g \<or> map_of acc k \<noteq> None"
  by (induction g arbitrary: a acc) (auto simp: place_node_def update_conv')

lemma place_nodes_distinct:
  "distinct (map fst acc) \<Longrightarrow> distinct (map fst (fold (place_node l tH) (enumerate a g) acc))"
  by (induction g arbitrary: a acc) (simp_all add: place_node_def distinct_update)

lemma place_group_enumerate:
  "place_group l g acc = fold (place_node l (totalH g)) (enumerate 0 g) acc"
  by (simp add: place_group_def enumerate_eq_zip)

lemma place_group_other: "k \<notin> set g \<Longrightarrow> map_of (place_group l g acc) k = map_of acc k"
  by (simp add: place_group_enumerate place_nodes_other)

lemma place_group_nth:
  "distinct g \<Longrightarrow> i < length g \<Longrightarrow> map_of (place_group l g acc) (g ! i) = Some (slot l g i)"
  by (simp add: place_group_enumerate place_nodes_nth slot_def)

lemma place_group_dom:
  "map_of (place_group l g acc) k \<noteq> None \<longleftrightarrow> k \<in> set g \<or> map_of acc k \<noteq> None"
  unfolding place_group_enumerate by (rule place_nodes_dom)

lemma place_group_distinct:
  "distinct (map fst acc) \<Longrightarrow> distinct (map fst (place_group l g acc))"
  unfolding place_group_enumerate by (rule place_nodes_distinct)

text \<open>All buckets, in the order of the level loop.\<close>

lemma fold_levels_other:
  "\<forall>l \<in> set ls. k \<notin> set (F l) \<Longrightarrow>
     map_of (fold (\<lambda>l. place_group l (F l)) ls acc) k = map_of acc k"
  by (induction ls arbitrary: acc) (simp_all add: place_group_other)

lemma fold_levels_nth:
  assumes "l \<in> set ls" "distinct (F l)" "i < length (F l)"
    and "\<forall>l' \<in> set ls. l' \<noteq> l \<longrightarrow> F l ! i \<notin> set (F l')"
  shows "map_of (fold (\<lambda>l. place_group l (F l)) ls acc) (F l ! i) = Some (slot l (F l) i)"
  using assms(1,4)
proof (induction ls arbitrary: acc)
  case Nil
  then show ?case by simp
next
  case (Cons a ls)
  have rest: "\<forall>l' \<in> set ls. l' \<noteq> l \<longrightarrow> F l ! i \<notin> set (F l')" using Cons.prems(2) by simp
  show ?case
  proof (cases "l \<in> set ls")
    case True
    from Cons.IH [OF True rest] show ?thesis by simp
  next
    case False
    then have a: "a = l" using Cons.prems(1) by simp
    have "\<forall>l' \<in> set ls. F l ! i \<notin> set (F l')" using rest False by auto
    then have "map_of (fold (\<lambda>l. place_group l (F l)) ls (place_group l (F l) acc)) (F l ! i)
        = map_of (place_group l (F l) acc) (F l ! i)"
      by (rule fold_levels_other)
    then show ?thesis using a assms(2,3) by (simp add: place_group_nth)
  qed
qed

lemma fold_levels_dom:
  "map_of (fold (\<lambda>l. place_group l (F l)) ls acc) k \<noteq> None
     \<longleftrightarrow> (\<exists>l \<in> set ls. k \<in> set (F l)) \<or> map_of acc k \<noteq> None"
proof (induction ls arbitrary: acc)
  case Nil
  show ?case by simp
next
  case (Cons a ls)
  show ?case using Cons.IH [of "place_group a (F a) acc"] place_group_dom [of a "F a" acc k]
    by auto
qed

lemma fold_levels_distinct:
  "distinct (map fst acc) \<Longrightarrow> distinct (map fst (fold (\<lambda>l. place_group l (F l)) ls acc))"
  by (induction ls arbitrary: acc) (simp_all add: place_group_distinct)

text \<open>The fallback loop.\<close>

lemma fallback_step_pair:
  "fallback_step mx s (P, c) =
     (if has P (step_id s) then (P, c)
      else (AList.update (step_id s) \<lparr>pos_x = (mx + 1 + c) * (NODE_W + GAP_X), pos_y = 0\<rparr> P,
            c + 1))"
  by (simp add: fallback_step_def)

lemma fallback_keeps:
  "map_of P k = Some p \<Longrightarrow> map_of (fst (fold (fallback_step mx) steps (P, c))) k = Some p"
proof (induction steps arbitrary: P c)
  case Nil
  then show ?case by simp
next
  case (Cons s steps)
  show ?case
  proof (cases "has P (step_id s)")
    case True
    then show ?thesis using Cons by (simp add: fallback_step_pair)
  next
    case False
    then have "step_id s \<noteq> k" using Cons.prems by (auto simp: has_def)
    then have "map_of (AList.update (step_id s) q P) k = Some p" for q
      using Cons.prems by (simp add: update_conv')
    from Cons.IH [OF this] show ?thesis using False by (simp add: fallback_step_pair)
  qed
qed

lemma fallback_dom:
  "map_of (fst (fold (fallback_step mx) steps (P, c))) k \<noteq> None
     \<longleftrightarrow> k \<in> set (step_ids steps) \<or> map_of P k \<noteq> None"
proof (induction steps arbitrary: P c)
  case Nil
  show ?case by (simp add: step_ids_def)
next
  case (Cons s steps)
  show ?case
  proof (cases "has P (step_id s)")
    case True
    then show ?thesis using Cons.IH [of P c]
      by (auto simp: fallback_step_pair step_ids_def has_def)
  next
    case False
    then show ?thesis
      using Cons.IH [of "AList.update (step_id s)
          \<lparr>pos_x = (mx + 1 + c) * (NODE_W + GAP_X), pos_y = 0\<rparr> P" "c + 1"]
      by (auto simp: fallback_step_pair step_ids_def has_def update_conv')
  qed
qed

lemma fallback_distinct:
  "distinct (map fst P) \<Longrightarrow> distinct (map fst (fst (fold (fallback_step mx) steps (P, c))))"
proof (induction steps arbitrary: P c)
  case Nil
  then show ?case by simp
next
  case (Cons s steps)
  show ?case
  proof (cases "has P (step_id s)")
    case True
    then show ?thesis using Cons by (simp add: fallback_step_pair)
  next
    case False
    have "distinct (map fst (AList.update (step_id s) q P))" for q
      using Cons.prems by (rule distinct_update)
    from Cons.IH [OF this] show ?thesis using False by (simp add: fallback_step_pair)
  qed
qed

lemma card_insert_diff:
  assumes "finite A" "a \<notin> K"
  shows "card (insert a A - K) = 1 + card (A - insert a K)"
proof -
  have "insert a A - K = insert a (A - insert a K)" using assms(2) by auto
  moreover have "a \<notin> A - insert a K" by simp
  moreover have "finite (A - insert a K)" using assms(1) by simp
  ultimately show ?thesis by simp
qed

lemma fallback_new:
  assumes "i < length steps" "step_ids steps ! i \<notin> set (take i (step_ids steps))"
    and "map_of P (step_ids steps ! i) = None"
  shows "map_of (fst (fold (fallback_step mx) steps (P, c))) (step_ids steps ! i)
     = Some \<lparr>pos_x = (mx + 1 + c + int (card (set (take i (step_ids steps)) - dom (map_of P))))
                * (NODE_W + GAP_X), pos_y = 0\<rparr>"
  using assms
proof (induction steps arbitrary: P c i)
  case Nil
  then show ?case by simp
next
  case (Cons s steps)
  show ?case
  proof (cases i)
    case 0
    then have h: "\<not> has P (step_id s)" using Cons.prems(3) by (simp add: has_def step_ids_def)
    have "map_of (AList.update (step_id s) q P) (step_id s) = Some q" for q
      by (simp add: update_conv')
    from fallback_keeps [OF this] show ?thesis using 0 h
      by (simp add: fallback_step_pair step_ids_def)
  next
    case (Suc j)
    let ?k = "step_ids steps ! j"
    have j: "j < length steps" using Cons.prems(1) Suc by simp
    have k: "step_ids (s # steps) ! i = ?k" using Suc by (simp add: step_ids_def)
    have tk: "take i (step_ids (s # steps)) = step_id s # take j (step_ids steps)"
      using Suc by (simp add: step_ids_def)
    have ne: "?k \<noteq> step_id s" and first: "?k \<notin> set (take j (step_ids steps))"
      using Cons.prems(2) unfolding k tk by auto
    have none: "map_of P ?k = None" using Cons.prems(3) k by simp
    show ?thesis
    proof (cases "has P (step_id s)")
      case True
      then have "step_id s \<in> dom (map_of P)" by (auto simp: has_def)
      then have "set (take i (step_ids (s # steps))) - dom (map_of P)
          = set (take j (step_ids steps)) - dom (map_of P)"
        unfolding tk by auto
      then show ?thesis using Cons.IH [OF j first none, of c] True
        unfolding k by (simp add: fallback_step_pair)
    next
      case False
      define q where "q = \<lparr>pos_x = (mx + 1 + c) * (NODE_W + GAP_X), pos_y = 0\<rparr>"
      let ?P' = "AList.update (step_id s) q P"
      have none': "map_of ?P' ?k = None" using none ne by (simp add: update_conv')
      have dom': "dom (map_of ?P') = insert (step_id s) (dom (map_of P))"
        by (simp add: update_conv')
      have notin: "step_id s \<notin> dom (map_of P)" using False by (auto simp: has_def)
      have "card (set (take i (step_ids (s # steps))) - dom (map_of P))
          = 1 + card (set (take j (step_ids steps)) - dom (map_of ?P'))"
        unfolding tk dom' using card_insert_diff [OF _ notin, of "set (take j (step_ids steps))"]
        by simp
      then show ?thesis using Cons.IH [OF j first none', of "c + 1"] False
        unfolding k by (simp add: fallback_step_pair q_def add.assoc)
    qed
  qed
qed

section \<open>The finished layout\<close>

lemma buildLayout_Some:
  "run_traversal steps deps = Some s \<Longrightarrow> buildLayout steps deps = Some (positions_of steps s)"
  by (simp add: buildLayout_def)

lemma place_levels_unfold:
  "place_levels G = fold (\<lambda>l. place_group l (get_or G l [])) [0..maxLevel_of G] []"
  by (simp add: place_levels_def)

lemma bucket_lookup:
  "distinct (map fst G) \<Longrightarrow> (l, g) \<in> set G \<Longrightarrow> get_or G l [] = g"
  by (simp add: get_or_def)

lemma lookup_bucket:
  "get_or G l [] = [] \<or> (l, get_or G l []) \<in> set G"
  by (cases "map_of G l") (auto simp: get_or_def dest: map_of_SomeD)

lemma final_bucket_range:
  assumes run: "run_traversal steps deps = Some s"
    and lg: "(l, g) \<in> set (levelGroups s)" and q: "q \<in> set g"
  shows "l \<in> set [0..maxLevel_of (levelGroups s)]"
proof -
  have "lev s q = l" using final_groups(4) [OF run lg q] .
  then have "0 \<le> l" using final_groups(5) [OF run, of q] by simp
  moreover have "l \<le> maxLevel_of (levelGroups s)" using lg by (rule maxLevel_of_ge(2))
  ultimately show ?thesis by simp
qed

lemma final_bucket_distinct:
  assumes run: "run_traversal steps deps = Some s" and lg: "(l, g) \<in> set (levelGroups s)"
  shows "distinct g"
proof -
  have "g \<in> set (map snd (levelGroups s))" using lg by force
  then show ?thesis using final_groups(1) [OF run] by (simp add: distinct_concat_iff)
qed

lemma levels_bucket:
  assumes run: "run_traversal steps deps = Some s"
    and lg: "(l, g) \<in> set (levelGroups s)" and i: "i < length g"
  shows "map_of (place_levels (levelGroups s)) (g ! i) = Some (slot l g i)"
proof -
  let ?G = "levelGroups s"
  let ?F = "\<lambda>l. get_or ?G l []"
  have F: "?F l = g" using final_groups(3) [OF run] lg by (rule bucket_lookup)
  have gi: "g ! i \<in> set g" using i by simp
  have r: "l \<in> set [0..maxLevel_of ?G]" by (rule final_bucket_range [OF run lg gi])
  have d: "distinct (?F l)" unfolding F by (rule final_bucket_distinct [OF run lg])
  have other: "\<forall>l' \<in> set [0..maxLevel_of ?G]. l' \<noteq> l \<longrightarrow> ?F l ! i \<notin> set (?F l')"
  proof (intro ballI impI notI)
    fix l' assume ne: "l' \<noteq> l" and m: "?F l ! i \<in> set (?F l')"
    then have "?F l' \<noteq> []" by auto
    then have "(l', ?F l') \<in> set ?G" using lookup_bucket [of ?G l'] by simp
    from final_groups(4) [OF run this m] final_groups(4) [OF run lg gi] F ne
    show False by simp
  qed
  have "map_of (fold (\<lambda>l. place_group l (?F l)) [0..maxLevel_of ?G] []) (?F l ! i)
      = Some (slot l (?F l) i)"
    using i by (intro fold_levels_nth [OF r d _ other]) (simp add: F)
  then show ?thesis by (simp add: place_levels_unfold F)
qed

lemma levels_dom:
  assumes run: "run_traversal steps deps = Some s"
  shows "map_of (place_levels (levelGroups s)) k \<noteq> None \<longleftrightarrow> k \<in> set (queue s)"
proof -
  let ?G = "levelGroups s"
  let ?F = "\<lambda>l. get_or ?G l []"
  have "(\<exists>l \<in> set [0..maxLevel_of ?G]. k \<in> set (?F l)) \<longleftrightarrow> k \<in> set (concat (map snd ?G))"
  proof
    assume "\<exists>l \<in> set [0..maxLevel_of ?G]. k \<in> set (?F l)"
    then obtain l where l: "k \<in> set (?F l)" by blast
    then have "?F l \<noteq> []" by auto
    then have "(l, ?F l) \<in> set ?G" using lookup_bucket [of ?G l] by simp
    with l show "k \<in> set (concat (map snd ?G))" by force
  next
    assume "k \<in> set (concat (map snd ?G))"
    then obtain l g where lg: "(l, g) \<in> set ?G" "k \<in> set g" by auto
    have "?F l = g" using final_groups(3) [OF run] lg(1) by (rule bucket_lookup)
    moreover have "l \<in> set [0..maxLevel_of ?G]" by (rule final_bucket_range [OF run lg])
    ultimately show "\<exists>l \<in> set [0..maxLevel_of ?G]. k \<in> set (?F l)" using lg(2) by blast
  qed
  then show ?thesis
    unfolding place_levels_unfold fold_levels_dom final_groups(2) [OF run] by simp
qed

lemma levels_dom_eq:
  "run_traversal steps deps = Some s \<Longrightarrow> dom (map_of (place_levels (levelGroups s))) = set (queue s)"
  using levels_dom [of steps deps s] by (auto simp: dom_def)

text \<open>The finished layout.\<close>

lemma layout_bucket:
  assumes run: "run_traversal steps deps = Some s"
    and lg: "(l, g) \<in> set (levelGroups s)" and i: "i < length g"
  shows "map_of (positions_of steps s) (g ! i) = Some (slot l g i)"
  unfolding positions_of_def place_fallback_def
  by (rule fallback_keeps [OF levels_bucket [OF run lg i]])

lemma layout_fallback:
  assumes run: "run_traversal steps deps = Some s" and i: "i < length steps"
    and first: "step_ids steps ! i \<notin> set (take i (step_ids steps))"
    and nq: "step_ids steps ! i \<notin> set (queue s)"
  shows "map_of (positions_of steps s) (step_ids steps ! i)
     = Some (fallback_slot (maxLevel_of (levelGroups s))
               (card (set (take i (step_ids steps)) - set (queue s))))"
proof -
  have "map_of (place_levels (levelGroups s)) (step_ids steps ! i) = None"
    using levels_dom [OF run, of "step_ids steps ! i"] nq by simp
  from fallback_new [OF i first this, of "maxLevel_of (levelGroups s)" 0]
  show ?thesis
    by (simp add: positions_of_def place_fallback_def fallback_slot_def levels_dom_eq [OF run])
qed

lemma layout_dom:
  assumes run: "run_traversal steps deps = Some s"
  shows "map_of (positions_of steps s) k \<noteq> None
           \<longleftrightarrow> k \<in> set (step_ids steps) \<or> k \<in> set (queue s)"
  unfolding positions_of_def place_fallback_def fallback_dom levels_dom [OF run] ..

lemma layout_distinct: "distinct (map fst (positions_of steps s))"
  unfolding positions_of_def place_fallback_def place_levels_unfold
  by (intro fallback_distinct fold_levels_distinct) simp

lemma dequeued_bucket:
  assumes run: "run_traversal steps deps = Some s" and q: "q \<in> set (queue s)"
  shows "\<exists>g i. (lev s q, g) \<in> set (levelGroups s) \<and> i < length g \<and> g ! i = q"
proof -
  have "q \<in> set (concat (map snd (levelGroups s)))" using q final_groups(2) [OF run] by simp
  then obtain l g where lg: "(l, g) \<in> set (levelGroups s)" "q \<in> set g" by auto
  then have "lev s q = l" using final_groups(4) [OF run] by blast
  moreover obtain i where "i < length g" "g ! i = q" using lg(2) by (auto simp: in_set_conv_nth)
  ultimately show ?thesis using lg(1) by blast
qed

lemma first_occurrence:
  "k \<in> set xs \<Longrightarrow> \<exists>i < length xs. xs ! i = k \<and> k \<notin> set (take i xs)"
proof (induction xs)
  case Nil
  then show ?case by simp
next
  case (Cons x xs)
  show ?case
  proof (cases "x = k")
    case True
    then have "0 < length (x # xs) \<and> (x # xs) ! 0 = k \<and> k \<notin> set (take 0 (x # xs))" by simp
    then show ?thesis by blast
  next
    case False
    then have "k \<in> set xs" using Cons.prems by simp
    then obtain i where i: "i < length xs" "xs ! i = k" "k \<notin> set (take i xs)"
      using Cons.IH by blast
    then have "Suc i < length (x # xs) \<and> (x # xs) ! Suc i = k \<and> k \<notin> set (take (Suc i) (x # xs))"
      using False by simp
    then show ?thesis by blast
  qed
qed

section \<open>Completeness and termination\<close>

lemma restricted_edge_dep:
  "(w, v) \<in> set (restricted_edges steps deps) \<longleftrightarrow>
     (\<exists>d \<in> set deps. source_step_id d = w \<and> target_step_id d = v
        \<and> w \<in> set (step_ids steps) \<and> v \<in> set (step_ids steps))"
  by (auto simp: restricted_edges_def)


lemma final_queue_keys:
  assumes run: "run_traversal steps deps = Some s" and v: "v \<in> set (queue s)"
  shows "v \<in> set (step_ids steps) \<or> into deps v \<noteq> []"
proof -
  obtain adjOut I0 where bg: "build_graph steps deps = (adjOut, I0)" by (cases "build_graph steps deps")
  note r = run_traversal_inv [OF run bg] and i = build_graph_inDeg [OF bg]
  have "map_of (inDeg s) v = Some 0" using r(1) v by (simp add: kahn_inv_def)
  moreover have "map_of (inDeg s) v =
      map_option (\<lambda>d. d - int (pend adjOut {} v) + int (pend adjOut (processed s) v)) (map_of I0 v)"
    using r(1) by (simp add: kahn_inv_def)
  ultimately have "map_of I0 v \<noteq> None" by auto
  then show ?thesis unfolding i(1) by (simp split: if_splits)
qed



text \<open>
  Termination of the traversal. For every input the \<open>while\<close> loop returns (the result of
  \<open>run_traversal\<close> is \<open>Some\<close>), it stops with the queue exhausted, no identifier was
  enqueued twice, and the map computed from the final state has a position for every
  input step.
\<close>

theorem buildLayout_terminates:
  "\<exists>s pos. run_traversal steps deps = Some s \<and> buildLayout steps deps = Some pos
     \<and> head s = length (queue s) \<and> distinct (queue s)
     \<and> (\<forall>st \<in> set steps. has pos (step_id st))"
proof -
  obtain s where run: "run_traversal steps deps = Some s"
    using run_traversal_terminates by blast
  have "\<forall>st \<in> set steps. has (positions_of steps s) (step_id st)"
    unfolding has_def layout_dom [OF run] by (simp add: step_ids_def)
  then show ?thesis
    using run buildLayout_Some [OF run] final_queue(1,2) [OF run] by blast
qed

section \<open>Geometry\<close>

lemma totalH_even: "2 * (totalH g div 2) = totalH g"
proof -
  have "totalH g = 2 * (int (length g) * 80 - 30)"
    by (simp add: totalH_def NODE_H_def GAP_Y_def)
  then show ?thesis by simp
qed

lemma slot_x: "pos_x (slot l g i) = l * (NODE_W + GAP_X)"
  and slot_y: "pos_y (slot l g i) = int i * (NODE_H + GAP_Y) - totalH g div 2"
  by (simp_all add: slot_def)

lemma fallback_slot_xy:
  "pos_x (fallback_slot mx j) = (mx + 1 + int j) * (NODE_W + GAP_X)" "pos_y (fallback_slot mx j) = 0"
  by (simp_all add: fallback_slot_def)

lemma entry_lookup:
  "(k, p) \<in> set (positions_of steps s) \<longleftrightarrow> map_of (positions_of steps s) k = Some p"
  using layout_distinct [of steps s] by simp

lemma layout_entry_cases:
  assumes run: "run_traversal steps deps = Some s"
    and e: "map_of (positions_of steps s) k = Some p"
  obtains (bucket) l g i where "(l, g) \<in> set (levelGroups s)" "i < length g" "g ! i = k"
      "p = slot l g i"
    | (fallback) i where "i < length steps" "step_ids steps ! i = k"
      "k \<notin> set (take i (step_ids steps))" "k \<notin> set (queue s)"
      "p = fallback_slot (maxLevel_of (levelGroups s))
             (card (set (take i (step_ids steps)) - set (queue s)))"
proof (cases "k \<in> set (queue s)")
  case True
  obtain g i where gi: "(lev s k, g) \<in> set (levelGroups s)" "i < length g" "g ! i = k"
    using dequeued_bucket [OF run True] by blast
  have "p = slot (lev s k) g i" using layout_bucket [OF run gi(1,2)] e gi(3) by simp
  with gi show ?thesis by (rule bucket)
next
  case False
  have "map_of (positions_of steps s) k \<noteq> None" using e by simp
  then have "k \<in> set (step_ids steps)" using layout_dom [OF run, of k] False by blast
  then obtain i where i: "i < length (step_ids steps)" "step_ids steps ! i = k"
      "k \<notin> set (take i (step_ids steps))"
    using first_occurrence [of k "step_ids steps"] by auto
  have il: "i < length steps" using i(1) by (simp add: step_ids_def)
  have "p = fallback_slot (maxLevel_of (levelGroups s))
             (card (set (take i (step_ids steps)) - set (queue s)))"
    using layout_fallback [OF run il] i(2,3) False e by simp
  with il i(2,3) False show ?thesis by (rule fallback)
qed

lemma fallback_index_mono:
  assumes "i < j" "j \<le> length xs" "xs ! i \<notin> Q" "xs ! i \<notin> set (take i xs)"
  shows "card (set (take i xs) - Q) < card (set (take j xs) - Q)"
proof -
  have il: "i < length xs" using assms(1,2) by simp
  have "set (take (Suc i) xs) \<subseteq> set (take j xs)"
    using assms(1) by (intro set_take_subset_set_take) simp
  then have s1: "insert (xs ! i) (set (take i xs)) \<subseteq> set (take j xs)"
    using il by (simp add: take_Suc_conv_app_nth)
  have "set (take i xs) - Q \<subset> set (take j xs) - Q"
    using s1 assms(3,4) by auto
  then show ?thesis by (intro psubset_card_mono) simp_all
qed

lemma layout_of_run:
  assumes "run_traversal steps deps = Some s" "buildLayout steps deps = Some pos"
  shows "pos = positions_of steps s"
  using assms by (simp add: buildLayout_def)

lemma slot_y_apart:
  assumes "i \<noteq> j"
  shows "NODE_H + GAP_Y \<le> \<bar>pos_y (slot l g i) - pos_y (slot l g j)\<bar>"
proof -
  have "int i \<noteq> int j" using assms by simp
  then have "160 \<le> \<bar>int i * 160 - int j * 160\<bar>" by linarith
  then show ?thesis by (simp add: slot_y NODE_H_def GAP_Y_def)
qed

lemma slot_x_apart:
  assumes "l \<noteq> l'"
  shows "NODE_W + GAP_X \<le> \<bar>pos_x (slot l g i) - pos_x (slot l' g' j)\<bar>"
proof -
  have "260 \<le> \<bar>l * 260 - l' * 260\<bar>" using assms by linarith
  then show ?thesis by (simp add: slot_x NODE_W_def GAP_X_def)
qed

lemma slot_fallback_apart:
  assumes "l \<le> mx"
  shows "pos_x (slot l g i) + (NODE_W + GAP_X) \<le> pos_x (fallback_slot mx j)"
proof -
  have "l * 260 + 260 \<le> (mx + 1 + int j) * 260" using assms by simp
  then show ?thesis by (simp add: slot_x fallback_slot_xy NODE_W_def GAP_X_def)
qed

lemma fallback_slot_apart:
  assumes "j \<noteq> j'"
  shows "NODE_W + GAP_X \<le> \<bar>pos_x (fallback_slot mx j) - pos_x (fallback_slot mx j')\<bar>"
proof -
  have "int j \<noteq> int j'" using assms by simp
  then have "260 \<le> \<bar>int j * 260 - int j' * 260\<bar>" by linarith
  moreover have "(mx + 1 + int j) * 260 - (mx + 1 + int j') * 260 = int j * 260 - int j' * 260"
    by (simp add: algebra_simps)
  ultimately show ?thesis by (simp add: fallback_slot_xy NODE_W_def GAP_X_def)
qed

text \<open>
  C6 (same-level non-overlap). For a bucket \<open>(l, g)\<close> of \<open>levelGroups\<close> of size \<open>n\<close>: the
  \<open>i\<close>-th node of the bucket is stored at \<open>x = l (W + Gx)\<close> and
  \<open>y = i (H + Gy) - T / 2\<close> with \<open>T = n (H + Gy) - Gy\<close>; \<open>T\<close> is even, so \<open>T / 2\<close> is an
  integer; the column from the top of the first node to the bottom of the last is centred
  on \<open>y = 0\<close>; two distinct nodes of the bucket are at least \<open>H + Gy\<close> apart in \<open>y\<close>; and a
  node of this bucket and a node of a bucket of another level are at least \<open>W + Gx\<close> apart
  in \<open>x\<close>.
\<close>

theorem bucket_layout:
  assumes run: "run_traversal steps deps = Some s" and lay: "buildLayout steps deps = Some pos"
    and lg: "(l, g) \<in> set (levelGroups s)"
  shows "(\<forall>i < length g. map_of pos (g ! i) =
            Some \<lparr>pos_x = l * (NODE_W + GAP_X),
                  pos_y = int i * (NODE_H + GAP_Y) - totalH g div 2\<rparr>)
       \<and> totalH g = int (length g) * (NODE_H + GAP_Y) - GAP_Y \<and> 2 * (totalH g div 2) = totalH g
       \<and> (g \<noteq> [] \<longrightarrow> int 0 * (NODE_H + GAP_Y) - totalH g div 2
              = - (int (length g - 1) * (NODE_H + GAP_Y) - totalH g div 2 + NODE_H))
       \<and> (\<forall>a \<in> set g. \<forall>b \<in> set g. a \<noteq> b \<longrightarrow>
            (\<exists>pa pb. map_of pos a = Some pa \<and> map_of pos b = Some pb
               \<and> NODE_H + GAP_Y \<le> \<bar>pos_y pa - pos_y pb\<bar>))
       \<and> (\<forall>l' g'. (l', g') \<in> set (levelGroups s) \<and> l' \<noteq> l \<longrightarrow>
            (\<forall>a \<in> set g. \<forall>b \<in> set g'.
               \<exists>pa pb. map_of pos a = Some pa \<and> map_of pos b = Some pb
                 \<and> NODE_W + GAP_X \<le> \<bar>pos_x pa - pos_x pb\<bar>))"
proof -
  have pos: "pos = positions_of steps s" by (rule layout_of_run [OF run lay])
  have 1: "\<forall>i < length g. map_of pos (g ! i) =
            Some \<lparr>pos_x = l * (NODE_W + GAP_X),
                  pos_y = int i * (NODE_H + GAP_Y) - totalH g div 2\<rparr>"
    using layout_bucket [OF run lg] by (simp add: pos slot_def)
  have 2: "totalH g = int (length g) * (NODE_H + GAP_Y) - GAP_Y" by (simp add: totalH_def)
  have 3: "g \<noteq> [] \<longrightarrow> int 0 * (NODE_H + GAP_Y) - totalH g div 2
              = - (int (length g - 1) * (NODE_H + GAP_Y) - totalH g div 2 + NODE_H)"
  proof
    assume "g \<noteq> []"
    then have "int (length g - 1) = int (length g) - 1" by (cases g) simp_all
    then show "int 0 * (NODE_H + GAP_Y) - totalH g div 2
              = - (int (length g - 1) * (NODE_H + GAP_Y) - totalH g div 2 + NODE_H)"
      using totalH_even [of g] by (simp add: totalH_def NODE_H_def GAP_Y_def algebra_simps)
  qed
  have 4: "\<forall>a \<in> set g. \<forall>b \<in> set g. a \<noteq> b \<longrightarrow>
            (\<exists>pa pb. map_of pos a = Some pa \<and> map_of pos b = Some pb
               \<and> NODE_H + GAP_Y \<le> \<bar>pos_y pa - pos_y pb\<bar>)"
  proof (intro ballI impI)
    fix a b assume "a \<in> set g" "b \<in> set g" "a \<noteq> b"
    then obtain i j where ij: "i < length g" "g ! i = a" "j < length g" "g ! j = b"
      by (auto simp: in_set_conv_nth)
    then have "i \<noteq> j" using \<open>a \<noteq> b\<close> by auto
    from slot_y_apart [OF this, of l g] layout_bucket [OF run lg ij(1)] layout_bucket [OF run lg ij(3)]
    show "\<exists>pa pb. map_of pos a = Some pa \<and> map_of pos b = Some pb
               \<and> NODE_H + GAP_Y \<le> \<bar>pos_y pa - pos_y pb\<bar>"
      unfolding pos ij(2,4) by blast
  qed
  have 5: "\<forall>l' g'. (l', g') \<in> set (levelGroups s) \<and> l' \<noteq> l \<longrightarrow>
            (\<forall>a \<in> set g. \<forall>b \<in> set g'.
               \<exists>pa pb. map_of pos a = Some pa \<and> map_of pos b = Some pb
                 \<and> NODE_W + GAP_X \<le> \<bar>pos_x pa - pos_x pb\<bar>)"
  proof (intro allI impI ballI)
    fix l' g' a b
    assume h: "(l', g') \<in> set (levelGroups s) \<and> l' \<noteq> l" and "a \<in> set g" "b \<in> set g'"
    then obtain i j where ij: "i < length g" "g ! i = a" "j < length g'" "g' ! j = b"
      by (auto simp: in_set_conv_nth)
    have lg': "(l', g') \<in> set (levelGroups s)" and ne: "l \<noteq> l'" using h by auto
    from slot_x_apart [OF ne, of g i g' j] layout_bucket [OF run lg ij(1)]
      layout_bucket [OF run lg' ij(3)]
    show "\<exists>pa pb. map_of pos a = Some pa \<and> map_of pos b = Some pb
                 \<and> NODE_W + GAP_X \<le> \<bar>pos_x pa - pos_x pb\<bar>"
      unfolding pos ij(2,4) by blast
  qed
  from 1 2 3 4 5 totalH_even [of g] show ?thesis by blast
qed

text \<open>
  C9 (global non-overlap). Any two distinct entries of the returned map, whether placed
  from a bucket or by the fallback, differ by at least \<open>W + Gx\<close> in \<open>x\<close> or by at least
  \<open>H + Gy\<close> in \<open>y\<close>; in particular their positions differ. The theorem needs no
  assumption on the step identifiers, so it covers the inputs with pairwise distinct
  identifiers that the claim is about.
\<close>

theorem layout_no_overlap:
  assumes lay: "buildLayout steps deps = Some pos"
    and a: "(a, pa) \<in> set pos" and b: "(b, pb) \<in> set pos" and ne: "(a, pa) \<noteq> (b, pb)"
  shows "(NODE_W + GAP_X \<le> \<bar>pos_x pa - pos_x pb\<bar> \<or> NODE_H + GAP_Y \<le> \<bar>pos_y pa - pos_y pb\<bar>)
       \<and> pa \<noteq> pb"
proof -
  obtain s where run: "run_traversal steps deps = Some s"
    using run_traversal_terminates by blast
  have pos: "pos = positions_of steps s" by (rule layout_of_run [OF run lay])
  have ma: "map_of (positions_of steps s) a = Some pa" using a by (simp add: pos entry_lookup)
  have mb: "map_of (positions_of steps s) b = Some pb" using b by (simp add: pos entry_lookup)
  have ab: "a \<noteq> b" using ne ma mb by auto
  let ?mx = "maxLevel_of (levelGroups s)"
  let ?J = "\<lambda>i. card (set (take i (step_ids steps)) - set (queue s))"
  have apart: "NODE_W + GAP_X \<le> \<bar>pos_x pa - pos_x pb\<bar> \<or> NODE_H + GAP_Y \<le> \<bar>pos_y pa - pos_y pb\<bar>"
  proof (cases rule: layout_entry_cases [OF run ma])
    case A: (1 l g i)
    show ?thesis
    proof (cases rule: layout_entry_cases [OF run mb])
      case B: (1 l' g' j)
      show ?thesis
      proof (cases "l = l'")
        case True
        then have "g' = g"
          using A(1) B(1) final_groups(3) [OF run] by (metis bucket_lookup)
        then have "i \<noteq> j" using A(3) B(3) ab by auto
        then show ?thesis using slot_y_apart [of i j l g] A(4) B(4) True \<open>g' = g\<close> by simp
      next
        case False
        then show ?thesis using slot_x_apart [of l l' g i g' j] A(4) B(4) by simp
      qed
    next
      case B: (2 j)
      have "l \<le> ?mx" using A(1) by (rule maxLevel_of_ge(2))
      from slot_fallback_apart [OF this, of g i "?J j"] show ?thesis
        unfolding A(4) B(5) by linarith
    qed
  next
    case A: (2 i)
    show ?thesis
    proof (cases rule: layout_entry_cases [OF run mb])
      case B: (1 l' g' j)
      have "l' \<le> ?mx" using B(1) by (rule maxLevel_of_ge(2))
      from slot_fallback_apart [OF this, of g' j "?J i"] show ?thesis
        unfolding A(5) B(4) by linarith
    next
      case B: (2 j)
      have len: "i \<le> length (step_ids steps)" "j \<le> length (step_ids steps)"
        using A(1) B(1) by (simp_all add: step_ids_def)
      have "i \<noteq> j" using A(2) B(2) ab by auto
      then have "?J i \<noteq> ?J j"
      proof (cases "i < j")
        case True
        from fallback_index_mono [OF True len(2), of "set (queue s)"] A(2,3,4)
        show ?thesis by simp
      next
        case False
        then have "j < i" using \<open>i \<noteq> j\<close> by simp
        from fallback_index_mono [OF this len(1), of "set (queue s)"] B(2,3,4)
        show ?thesis by simp
      qed
      then show ?thesis using fallback_slot_apart [of "?J i" "?J j" ?mx] A(5) B(5) by simp
    qed
  qed
  moreover have "pa \<noteq> pb"
  proof
    assume "pa = pb"
    then have "\<bar>pos_x pa - pos_x pb\<bar> = 0" "\<bar>pos_y pa - pos_y pb\<bar> = 0" by simp_all
    then show False using apart by (simp add: NODE_W_def GAP_X_def NODE_H_def GAP_Y_def)
  qed
  ultimately show ?thesis by blast
qed

text \<open>
  C8 (fallback placement). Let step \<open>i\<close> of the input be a step that the traversal never
  dequeued, at the first occurrence of its identifier. It is stored at \<open>y = 0\<close> in column
  \<open>maxLevel + 1 + j\<close>, where \<open>maxLevel\<close> bounds the level of every bucket and \<open>j\<close> is the
  number of identifiers before position \<open>i\<close> in the input that were not dequeued either:
  one more than the largest column in use when the fallback loop reaches it, in input
  order. Every dequeued node lies at least \<open>W + Gx\<close> to its left.
\<close>

theorem fallback_placement:
  assumes run: "run_traversal steps deps = Some s" and lay: "buildLayout steps deps = Some pos"
    and i: "i < length steps"
    and nq: "step_id (steps ! i) \<notin> set (queue s)"
    and first: "step_id (steps ! i) \<notin> step_id ` set (take i steps)"
  shows "map_of pos (step_id (steps ! i)) =
           Some \<lparr>pos_x = (maxLevel_of (levelGroups s) + 1
                            + int (card (step_id ` set (take i steps) - set (queue s))))
                          * (NODE_W + GAP_X),
                 pos_y = 0\<rparr>
       \<and> maxLevel_of (levelGroups s) = Max (insert 0 (fst ` set (levelGroups s)))
       \<and> (\<forall>l g. (l, g) \<in> set (levelGroups s) \<longrightarrow> l \<le> maxLevel_of (levelGroups s))
       \<and> (\<forall>q \<in> set (queue s). \<exists>p. map_of pos q = Some p
            \<and> pos_x p + (NODE_W + GAP_X)
                \<le> (maxLevel_of (levelGroups s) + 1
                     + int (card (step_id ` set (take i steps) - set (queue s))))
                   * (NODE_W + GAP_X))"
proof -
  have pos: "pos = positions_of steps s" by (rule layout_of_run [OF run lay])
  let ?mx = "maxLevel_of (levelGroups s)"
  let ?j = "card (step_id ` set (take i steps) - set (queue s))"
  have k: "step_ids steps ! i = step_id (steps ! i)" using i by (simp add: step_ids_def)
  have t: "set (take i (step_ids steps)) = step_id ` set (take i steps)"
    by (simp add: step_ids_def take_map)
  have 1: "map_of pos (step_id (steps ! i)) = Some (fallback_slot ?mx ?j)"
    using layout_fallback [OF run i] first nq unfolding k t pos by simp
  have 2: "\<forall>l g. (l, g) \<in> set (levelGroups s) \<longrightarrow> l \<le> ?mx"
    using maxLevel_of_ge(2) by blast
  have 3: "\<forall>q \<in> set (queue s). \<exists>p. map_of pos q = Some p
            \<and> pos_x p + (NODE_W + GAP_X) \<le> pos_x (fallback_slot ?mx ?j)"
  proof
    fix q assume "q \<in> set (queue s)"
    then obtain g n where gn: "(lev s q, g) \<in> set (levelGroups s)" "n < length g" "g ! n = q"
      using dequeued_bucket [OF run] by blast
    have "lev s q \<le> ?mx" using gn(1) by (rule maxLevel_of_ge(2))
    from slot_fallback_apart [OF this, of g n ?j] layout_bucket [OF run gn(1,2)]
    show "\<exists>p. map_of pos q = Some p
            \<and> pos_x p + (NODE_W + GAP_X) \<le> pos_x (fallback_slot ?mx ?j)"
      unfolding pos gn(3) by blast
  qed
  have 4: "?mx = Max (insert 0 (fst ` set (levelGroups s)))"
    using Max.set_eq_fold [of 0 "keys (levelGroups s)"] by (simp add: maxLevel_of_def keys_def)
  from 1 2 3 4 show ?thesis by (simp add: fallback_slot_def)
qed

section \<open>Edges and longest paths\<close>

lemma bucket_level:
  assumes run: "run_traversal steps deps = Some s"
    and "(l, g) \<in> set (levelGroups s)" "q \<in> set g"
  shows "lev s q = l" "q \<in> set (queue s)"
proof -
  show "lev s q = l" using final_groups(4) [OF run assms(2,3)] .
  have "q \<in> set (concat (map snd (levelGroups s)))" using assms(2,3) by force
  then show "q \<in> set (queue s)" unfolding final_groups(2) [OF run] .
qed


lemma path_upper:
  assumes run: "run_traversal steps deps = Some s"
  shows "path (restricted_edges steps deps) u n v \<Longrightarrow> v \<in> set (queue s) \<Longrightarrow> int n \<le> lev s v"
proof (induction n arbitrary: v)
  case 0
  show ?case using final_groups(5) [OF run, of v] by simp
next
  case (Suc n)
  from Suc.prems(1) obtain w where w: "(w, v) \<in> set (restricted_edges steps deps)"
      "path (restricted_edges steps deps) u n w"
    by (auto simp: list_ex_iff)
  then obtain d where d: "d \<in> set deps" "source_step_id d = w" "target_step_id d = v"
    by (auto simp: restricted_edge_dep)
  have "w \<in> set (queue s)" "lev s w + 1 \<le> lev s v"
    using final_preds(2,3) [OF run Suc.prems(2) d(1,3)] d(2) by simp_all
  with Suc.IH [OF w(2)] show ?case by simp
qed

lemma path_exists:
  assumes run: "run_traversal steps deps = Some s"
  shows "lev s v = int n \<Longrightarrow> v \<in> set (queue s) \<Longrightarrow> v \<in> set (step_ids steps) \<Longrightarrow>
         \<exists>u. is_source steps deps u \<and> path (restricted_edges steps deps) u n v"
proof (induction n arbitrary: v)
  case 0
  have "v \<notin> set (map snd (restricted_edges steps deps))"
  proof
    assume "v \<in> set (map snd (restricted_edges steps deps))"
    then obtain w where "(w, v) \<in> set (restricted_edges steps deps)" by auto
    then obtain d where d: "d \<in> set deps" "target_step_id d = v"
      by (auto simp: restricted_edge_dep)
    from final_preds(3) [OF run "0.prems"(2) d] final_groups(5) [OF run, of "source_step_id d"]
    show False using "0.prems"(1) by simp
  qed
  then have "is_source steps deps v" using "0.prems"(3) by (simp add: is_source_def)
  then show ?case by auto
next
  case (Suc n)
  have "lev s v \<noteq> 0" using Suc.prems(1) by simp
  from final_level_witness [OF run this]
  obtain d where d: "d \<in> set deps" "target_step_id d = v"
      "source_step_id d \<in> set (step_ids steps)" "source_step_id d \<in> set (queue s)"
      "lev s v = lev s (source_step_id d) + 1"
    by blast
  have "lev s (source_step_id d) = int n" using d(5) Suc.prems(1) by simp
  from Suc.IH [OF this d(4,3)]
  obtain u where u: "is_source steps deps u"
      "path (restricted_edges steps deps) u n (source_step_id d)"
    by blast
  have "(source_step_id d, v) \<in> set (restricted_edges steps deps)"
    using d(1,2,3) Suc.prems(3) by (auto simp: restricted_edge_dep)
  then have "path (restricted_edges steps deps) u (Suc n) v"
    using u(2) by (force simp: list_ex_iff)
  with u(1) show ?case by blast
qed

text \<open>
  C5 (longest-path levels). Let \<open>v\<close> be an input step that the traversal dequeued into the
  bucket of level \<open>l\<close>. Then some node of in-degree \<open>0\<close> reaches \<open>v\<close> by a path of exactly
  \<open>l\<close> edges of the restricted edge set, and no path from such a node to \<open>v\<close> has more than
  \<open>l\<close> edges.
\<close>

theorem level_is_longest_path:
  assumes run: "run_traversal steps deps = Some s"
    and lg: "(l, g) \<in> set (levelGroups s)" and v: "v \<in> set g"
    and node: "v \<in> step_id ` set steps"
  shows "0 \<le> l
       \<and> (\<exists>u. is_source steps deps u \<and> path (restricted_edges steps deps) u (nat l) v)
       \<and> (\<forall>u n. is_source steps deps u \<and> path (restricted_edges steps deps) u n v
             \<longrightarrow> int n \<le> l)"
proof -
  note b = bucket_level [OF run lg v]
  have 0: "0 \<le> l" using final_groups(5) [OF run, of v] b(1) by simp
  then have "lev s v = int (nat l)" using b(1) by simp
  moreover have "v \<in> set (step_ids steps)" using node by (simp add: step_ids_def)
  ultimately have 1: "\<exists>u. is_source steps deps u \<and> path (restricted_edges steps deps) u (nat l) v"
    using path_exists [OF run _ b(2)] by blast
  have 2: "\<forall>u n. is_source steps deps u \<and> path (restricted_edges steps deps) u n v \<longrightarrow> int n \<le> l"
    using path_upper [OF run _ b(2)] b(1) by auto
  from 0 1 2 show ?thesis by blast
qed

section \<open>Which identifiers are dequeued\<close>

lemma walk_into_path: "walk_into E n v \<longleftrightarrow> (\<exists>u. path E u n v)"
  by (induction n arbitrary: v) (auto simp: list_ex_iff)

text \<open>
  Every graph with a topological numbering meets the hypothesis on walks: a walk that ends
  in \<open>v\<close> has at most \<open>rank v\<close> edges.
\<close>

lemma ranked_walk:
  assumes "\<forall>e \<in> set E. rank (fst e) < (rank (snd e) :: nat)"
  shows "walk_into E n v \<Longrightarrow> n \<le> rank v"
proof (induction n arbitrary: v)
  case 0
  show ?case by simp
next
  case (Suc n)
  from Suc.prems obtain e where e: "e \<in> set E" "snd e = v" "walk_into E n (fst e)"
    by (auto simp: list_ex_iff)
  from Suc.IH [OF e(3)] assms e(1,2) show ?case by force
qed

lemma ranked_no_long_walk:
  assumes "\<forall>e \<in> set E. rank (fst e) < (rank (snd e) :: nat)"
  shows "\<not> walk_into E (Suc (rank v)) v"
  using ranked_walk [OF assms, of "Suc (rank v)" v] by auto

lemma pend_zero_conv:
  assumes "\<forall>e \<in> set adjOut. fst e \<notin> P \<longrightarrow> v \<notin> set (snd e)"
  shows "pend adjOut P v = 0"
proof -
  have "v \<notin> set (concat (map snd (filter (\<lambda>e. fst e \<notin> P) adjOut)))"
    using assms by auto
  then have "count_list (concat (map snd (filter (\<lambda>e. fst e \<notin> P) adjOut))) v = 0"
    by (rule count_list_0_iff [THEN iffD2])
  then show ?thesis unfolding pend_def .
qed

text \<open>
  An identifier with an in-degree entry is dequeued as soon as every dependency into it
  has a step as its source and all those sources are dequeued.
\<close>

lemma all_preds_dequeued:
  assumes run: "run_traversal steps deps = Some s"
    and key: "v \<in> set (step_ids steps) \<or> into deps v \<noteq> []"
    and preds: "\<forall>d \<in> set (into deps v).
        source_step_id d \<in> set (step_ids steps) \<and> source_step_id d \<in> set (queue s)"
  shows "v \<in> set (queue s)"
proof -
  obtain adjOut I0 where bg: "build_graph steps deps = (adjOut, I0)" by (cases "build_graph steps deps")
  note r = run_traversal_inv [OF run bg] and f = final_queue [OF run]
  note a = build_graph_adj [OF bg] and i = build_graph_inDeg [OF bg]
  have I0v: "map_of I0 v = Some (int (length (into deps v)))" using key by (simp add: i(1))
  have "filter (\<lambda>d. source_step_id d \<in> set (step_ids steps)) (into deps v) = into deps v"
    using preds by (simp add: filter_id_conv)
  then have occ: "pend adjOut {} v = length (into deps v)" by (simp add: a(4))
  have p0: "pend adjOut (set (queue s)) v = 0"
  proof (rule pend_zero_conv, intro ballI impI notI)
    fix e assume e: "e \<in> set adjOut" and nq: "fst e \<notin> set (queue s)" and v: "v \<in> set (snd e)"
    obtain w ts where wts: "e = (w, ts)" by (cases e)
    have "map_of adjOut w = Some ts" using e a(2) wts by simp
    then have "ts = map target_step_id (filter (\<lambda>d. source_step_id d = w) deps)"
      by (simp add: a(1) split: if_splits)
    then have "v \<in> set (map target_step_id (filter (\<lambda>d. source_step_id d = w) deps))"
      using v wts by simp
    then obtain d where "d \<in> set deps" "source_step_id d = w" "target_step_id d = v" by auto
    then have "d \<in> set (into deps v)" "source_step_id d = w" by (simp_all add: into_def)
    then have "w \<in> set (queue s)" using preds by blast
    then show False using nq wts by simp
  qed
  have "map_of (inDeg s) v =
      Some (int (length (into deps v)) - int (pend adjOut {} v) + int (pend adjOut (set (queue s)) v))"
    using r(1) I0v unfolding kahn_inv_def f(3) by simp
  then have "map_of (inDeg s) v = Some 0" by (simp add: occ p0)
  then show ?thesis using r(1) by (simp add: kahn_inv_def)
qed

lemma acyclic_dequeued:
  assumes run: "run_traversal steps deps = Some s"
    and src: "\<forall>e \<in> set deps. source_step_id e \<in> set (step_ids steps)"
  shows "\<not> walk_into (restricted_edges steps deps) N v \<Longrightarrow> v \<in> set (step_ids steps)
           \<Longrightarrow> v \<in> set (queue s)"
proof (induction N arbitrary: v)
  case 0
  then show ?case by simp
next
  case (Suc N)
  have "\<forall>d \<in> set (into deps v).
        source_step_id d \<in> set (step_ids steps) \<and> source_step_id d \<in> set (queue s)"
  proof
    fix d assume "d \<in> set (into deps v)"
    then have d: "d \<in> set deps" "target_step_id d = v" by (simp_all add: into_def)
    have w: "source_step_id d \<in> set (step_ids steps)" using src d(1) by blast
    then have "(source_step_id d, v) \<in> set (restricted_edges steps deps)"
      using d Suc.prems(2) by (auto simp: restricted_edge_dep)
    then have "\<not> walk_into (restricted_edges steps deps) N (source_step_id d)"
      using Suc.prems(1) by (force simp: list_ex_iff)
    from Suc.IH [OF this w] w
    show "source_step_id d \<in> set (step_ids steps) \<and> source_step_id d \<in> set (queue s)" by blast
  qed
  then show ?case using all_preds_dequeued [OF run] Suc.prems(2) by blast
qed


lemma foreign_key_iff:
  assumes run: "run_traversal steps deps = Some s" and lay: "buildLayout steps deps = Some pos"
    and k: "k \<notin> step_id ` set steps"
  shows "(has pos k \<longleftrightarrow>
            (\<exists>d \<in> set deps. target_step_id d = k)
          \<and> (\<forall>d \<in> set deps. target_step_id d = k \<longrightarrow>
                source_step_id d \<in> step_id ` set steps \<and> source_step_id d \<in> set (queue s)))
       \<and> (has pos k \<longrightarrow> k \<in> set (queue s) \<and>
            (\<exists>l g i. (l, g) \<in> set (levelGroups s) \<and> i < length g \<and> g ! i = k \<and> 1 \<le> l
               \<and> map_of pos k = Some \<lparr>pos_x = l * (NODE_W + GAP_X),
                    pos_y = int i * (NODE_H + GAP_Y) - totalH g div 2\<rparr>))
       \<and> (\<forall>adjOut I0. build_graph steps deps = (adjOut, I0) \<and> (\<exists>d \<in> set deps. target_step_id d = k)
             \<longrightarrow> map_of I0 k = Some (int (length (filter (\<lambda>d. target_step_id d = k) deps))))"
proof -
  have pos: "pos = positions_of steps s" by (rule layout_of_run [OF run lay])
  have nk: "k \<notin> set (step_ids steps)" using k by (simp add: step_ids_def)
  have hq: "has pos k \<longleftrightarrow> k \<in> set (queue s)"
    unfolding has_def pos layout_dom [OF run] using nk by simp
  have into_iff: "\<And>d. d \<in> set (into deps k) \<longleftrightarrow> d \<in> set deps \<and> target_step_id d = k"
    by (simp add: into_def)
  have 1: "has pos k \<longleftrightarrow>
            (\<exists>d \<in> set deps. target_step_id d = k)
          \<and> (\<forall>d \<in> set deps. target_step_id d = k \<longrightarrow>
                source_step_id d \<in> step_id ` set steps \<and> source_step_id d \<in> set (queue s))"
  proof
    assume "has pos k"
    then have q: "k \<in> set (queue s)" using hq by simp
    then have "into deps k \<noteq> []" using final_queue_keys [OF run q] nk by simp
    then obtain d where "d \<in> set (into deps k)" by (cases "into deps k") auto
    then have ex: "\<exists>d \<in> set deps. target_step_id d = k" using into_iff by blast
    have "\<forall>d \<in> set deps. target_step_id d = k \<longrightarrow>
                source_step_id d \<in> step_id ` set steps \<and> source_step_id d \<in> set (queue s)"
    proof (intro ballI impI)
      fix d assume d: "d \<in> set deps" "target_step_id d = k"
      from final_preds(1,2) [OF run q d]
      show "source_step_id d \<in> step_id ` set steps \<and> source_step_id d \<in> set (queue s)"
        by (simp add: step_ids_def)
    qed
    with ex show "(\<exists>d \<in> set deps. target_step_id d = k)
          \<and> (\<forall>d \<in> set deps. target_step_id d = k \<longrightarrow>
                source_step_id d \<in> step_id ` set steps \<and> source_step_id d \<in> set (queue s))"
      by blast
  next
    assume h: "(\<exists>d \<in> set deps. target_step_id d = k)
          \<and> (\<forall>d \<in> set deps. target_step_id d = k \<longrightarrow>
                source_step_id d \<in> step_id ` set steps \<and> source_step_id d \<in> set (queue s))"
    then have "into deps k \<noteq> []" using into_iff by (metis empty_iff list.set(1))
    moreover have "\<forall>d \<in> set (into deps k).
        source_step_id d \<in> set (step_ids steps) \<and> source_step_id d \<in> set (queue s)"
      using h into_iff by (simp add: step_ids_def)
    ultimately have "k \<in> set (queue s)" using all_preds_dequeued [OF run] by blast
    then show "has pos k" using hq by simp
  qed
  have 2: "has pos k \<longrightarrow> k \<in> set (queue s) \<and>
            (\<exists>l g i. (l, g) \<in> set (levelGroups s) \<and> i < length g \<and> g ! i = k \<and> 1 \<le> l
               \<and> map_of pos k = Some \<lparr>pos_x = l * (NODE_W + GAP_X),
                    pos_y = int i * (NODE_H + GAP_Y) - totalH g div 2\<rparr>)"
  proof
    assume "has pos k"
    then have q: "k \<in> set (queue s)" using hq by simp
    obtain g i where gi: "(lev s k, g) \<in> set (levelGroups s)" "i < length g" "g ! i = k"
      using dequeued_bucket [OF run q] by blast
    have "into deps k \<noteq> []" using final_queue_keys [OF run q] nk by simp
    then obtain d where "d \<in> set (into deps k)" by (cases "into deps k") auto
    then have d: "d \<in> set deps" "target_step_id d = k" using into_iff by blast+
    from final_preds(3) [OF run q d] final_groups(5) [OF run, of "source_step_id d"]
    have l1: "1 \<le> lev s k" by simp
    have "map_of pos k = Some (slot (lev s k) g i)"
      using layout_bucket [OF run gi(1,2)] gi(3) pos by simp
    then have "\<exists>l g i. (l, g) \<in> set (levelGroups s) \<and> i < length g \<and> g ! i = k \<and> 1 \<le> l
               \<and> map_of pos k = Some \<lparr>pos_x = l * (NODE_W + GAP_X),
                    pos_y = int i * (NODE_H + GAP_Y) - totalH g div 2\<rparr>"
      using gi l1 unfolding slot_def by blast
    with q show "k \<in> set (queue s) \<and>
            (\<exists>l g i. (l, g) \<in> set (levelGroups s) \<and> i < length g \<and> g ! i = k \<and> 1 \<le> l
               \<and> map_of pos k = Some \<lparr>pos_x = l * (NODE_W + GAP_X),
                    pos_y = int i * (NODE_H + GAP_Y) - totalH g div 2\<rparr>)"
      by blast
  qed
  have 3: "\<forall>adjOut I0. build_graph steps deps = (adjOut, I0) \<and> (\<exists>d \<in> set deps. target_step_id d = k)
             \<longrightarrow> map_of I0 k = Some (int (length (filter (\<lambda>d. target_step_id d = k) deps)))"
  proof (intro allI impI)
    fix adjOut I0
    assume h: "build_graph steps deps = (adjOut, I0) \<and> (\<exists>d \<in> set deps. target_step_id d = k)"
    then have "into deps k \<noteq> []" using into_iff by (metis empty_iff list.set(1))
    then show "map_of I0 k = Some (int (length (filter (\<lambda>d. target_step_id d = k) deps)))"
      using build_graph_inDeg(1) [of steps deps adjOut I0 k] h by (simp add: into_def)
  qed
  from 1 2 3 show ?thesis by blast
qed

section \<open>The argument limit of the engine\<close>

lemma buildLayout_checked_agrees:
  assumes "run_traversal steps deps = Some s" "length (keys (levelGroups s)) < arg_limit"
  shows "buildLayout_checked arg_limit steps deps = map_option Inr (buildLayout steps deps)"
  using assms
  by (simp add: buildLayout_checked_def buildLayout_def maxLevel_checked_def positions_of_def)

lemma chain_ids: "v \<in> set (step_ids (chain_steps n)) \<longleftrightarrow> 0 \<le> v \<and> v < int n"
proof -
  have "step_ids (chain_steps n) = map int [0..<n]"
    by (simp add: step_ids_def chain_steps_def step_with_id_def comp_def)
  then have "set (step_ids (chain_steps n)) = int ` {0..<n}" by simp
  also have "\<dots> = {v. 0 \<le> v \<and> v < int n}"
  proof (intro set_eqI iffI)
    fix v assume "v \<in> int ` {0..<n}"
    then show "v \<in> {v. 0 \<le> v \<and> v < int n}" by auto
  next
    fix v assume "v \<in> {v. 0 \<le> v \<and> v < int n}"
    then have "v = int (nat v)" "nat v \<in> {0..<n}" by auto
    then show "v \<in> int ` {0..<n}" by (metis imageI)
  qed
  finally show ?thesis by simp
qed

lemma chain_dep:
  "d \<in> set (chain_deps n) \<longleftrightarrow> (\<exists>i. Suc i < n \<and> d = edge (int i) (int i + 1))"
proof -
  have "\<And>i. i < n - 1 \<longleftrightarrow> Suc i < n" by auto
  then show ?thesis by (auto simp: chain_deps_def)
qed

lemma chain_sources:
  "\<forall>e \<in> set (chain_deps n). source_step_id e \<in> set (step_ids (chain_steps n))"
  by (auto simp: chain_dep chain_ids edge_def)

lemma chain_edges:
  "(w, v) \<in> set (restricted_edges (chain_steps n) (chain_deps n))
     \<longleftrightarrow> 0 \<le> w \<and> v = w + 1 \<and> v < int n"
proof
  assume "(w, v) \<in> set (restricted_edges (chain_steps n) (chain_deps n))"
  then obtain d where d: "d \<in> set (chain_deps n)" "source_step_id d = w" "target_step_id d = v"
    by (auto simp: restricted_edge_dep)
  then obtain i where "Suc i < n" "d = edge (int i) (int i + 1)" using chain_dep by blast
  then show "0 \<le> w \<and> v = w + 1 \<and> v < int n" using d(2,3) by (auto simp: edge_def)
next
  assume h: "0 \<le> w \<and> v = w + 1 \<and> v < int n"
  then have i: "Suc (nat w) < n" "w = int (nat w)" by auto
  then have "edge w (w + 1) \<in> set (chain_deps n)" using chain_dep [of "edge w (w + 1)" n] by metis
  moreover have "w \<in> set (step_ids (chain_steps n))" "v \<in> set (step_ids (chain_steps n))"
    using h by (auto simp: chain_ids)
  ultimately show "(w, v) \<in> set (restricted_edges (chain_steps n) (chain_deps n))"
    using h unfolding restricted_edge_dep by (force simp: edge_def)
qed

lemma chain_walk: "walk_into (restricted_edges (chain_steps n) (chain_deps n)) k v \<Longrightarrow> 0 \<le> v
    \<Longrightarrow> int k \<le> v"
proof (induction k arbitrary: v)
  case 0
  then show ?case by simp
next
  case (Suc k)
  from Suc.prems(1) obtain w where w: "(w, v) \<in> set (restricted_edges (chain_steps n) (chain_deps n))"
      "walk_into (restricted_edges (chain_steps n) (chain_deps n)) k w"
    by (auto simp: list_ex_iff)
  then have "0 \<le> w" "v = w + 1" by (simp_all add: chain_edges)
  with Suc.IH [OF w(2)] show ?case by simp
qed

lemma chain_path: "path (restricted_edges (chain_steps n) (chain_deps n)) u m v \<Longrightarrow> v = u + int m"
proof (induction m arbitrary: v)
  case 0
  then show ?case by simp
next
  case (Suc m)
  from Suc.prems obtain w where w: "(w, v) \<in> set (restricted_edges (chain_steps n) (chain_deps n))"
      "path (restricted_edges (chain_steps n) (chain_deps n)) u m w"
    by (auto simp: list_ex_iff)
  then have "v = w + 1" by (simp add: chain_edges)
  with Suc.IH [OF w(2)] show ?case by simp
qed

lemma chain_source: "is_source (chain_steps n) (chain_deps n) u \<Longrightarrow> u = 0"
proof (rule ccontr)
  assume s: "is_source (chain_steps n) (chain_deps n) u" and "u \<noteq> 0"
  then have u: "0 < u" "u < int n" by (auto simp: is_source_def chain_ids)
  then have "(u - 1, u) \<in> set (restricted_edges (chain_steps n) (chain_deps n))"
    by (simp add: chain_edges)
  then have "u \<in> set (map snd (restricted_edges (chain_steps n) (chain_deps n)))" by force
  then show False using s by (simp add: is_source_def)
qed

text \<open>On a chain every step is dequeued, step \<open>i\<close> into the bucket of level \<open>i\<close>.\<close>

lemma chain_buckets:
  assumes run: "run_traversal (chain_steps n) (chain_deps n) = Some s" and i: "i < n"
  shows "int i \<in> set (keys (levelGroups s))"
proof -
  let ?E = "restricted_edges (chain_steps n) (chain_deps n)"
  have node: "int i \<in> set (step_ids (chain_steps n))" using i by (simp add: chain_ids)
  have "\<not> walk_into ?E (Suc i) (int i)" using chain_walk [of n "Suc i" "int i"] by auto
  then have q: "int i \<in> set (queue s)"
    by (rule acyclic_dequeued [OF run chain_sources _ node])
  obtain g where g: "(lev s (int i), g) \<in> set (levelGroups s)"
    using dequeued_bucket [OF run q] by blast
  have l0: "0 \<le> lev s (int i)" by (rule final_groups(5) [OF run])
  then have "lev s (int i) = int (nat (lev s (int i)))" by simp
  from path_exists [OF run this q node]
  obtain u where u: "is_source (chain_steps n) (chain_deps n) u" "path ?E u (nat (lev s (int i))) (int i)"
    by blast
  have "u = 0" by (rule chain_source [OF u(1)])
  with chain_path [OF u(2)] l0 have "lev s (int i) = int i" by simp
  with g show ?thesis by (force simp: keys_def)
qed

lemma chain_levels:
  assumes run: "run_traversal (chain_steps n) (chain_deps n) = Some s"
  shows "n \<le> length (keys (levelGroups s))"
proof -
  have "int ` {0..<n} \<subseteq> set (keys (levelGroups s))"
    using chain_buckets [OF run] by auto
  then have "card (int ` {0..<n}) \<le> card (set (keys (levelGroups s)))"
    by (intro card_mono) simp_all
  moreover have "card (int ` {0..<n}) = n" by (simp add: card_image)
  moreover have "card (set (keys (levelGroups s))) \<le> length (keys (levelGroups s))"
    by (rule card_length)
  ultimately show ?thesis by linarith
qed

text \<open>
  C4 (termination and totality) fails in its part "never raises". On the chain of \<open>n\<close>
  steps \<open>0 \<rightarrow> 1 \<rightarrow> \<dots> \<rightarrow> n - 1\<close> the traversal returns and has put step \<open>i\<close> into the
  bucket of level \<open>i\<close>, so \<open>levelGroups\<close> has \<open>n\<close> keys and the spread on line 280 passes
  \<open>n + 1\<close> arguments to \<open>Math.max\<close>. Whenever the engine accepts at most \<open>arg_limit \<le> n\<close>
  arguments in a call, \<open>buildLayout\<close> raises \<open>RangeError\<close> and returns no position at all.
\<close>

theorem chain_raises_RangeError:
  assumes "arg_limit \<le> n"
  shows "buildLayout_checked arg_limit (chain_steps n) (chain_deps n) = Some (Inl RangeError)"
proof -
  obtain s where run: "run_traversal (chain_steps n) (chain_deps n) = Some s"
    using run_traversal_terminates by blast
  have "arg_limit < length (keys (levelGroups s)) + 1"
    using chain_levels [OF run] assms by simp
  then show ?thesis by (simp add: buildLayout_checked_def run maxLevel_checked_def)
qed

text \<open>
  C4 at the chain of \<open>3\<close> steps: the buckets have the keys \<open>0, 1, 2\<close>; with an argument
  limit of \<open>3\<close> the call raises, with a limit of \<open>4\<close> it returns the three positions.
\<close>

theorem chain_raises_RangeError_witness:
  "(3 :: nat) \<le> 3
   \<and> buildLayout_checked 3 (chain_steps 3) (chain_deps 3) = Some (Inl RangeError)
   \<and> map_option (\<lambda>s. keys (levelGroups s)) (run_traversal (chain_steps 3) (chain_deps 3))
       = Some [0, 1, 2]
   \<and> buildLayout_checked 4 (chain_steps 3) (chain_deps 3)
       = Some (Inr [(0, \<lparr>pos_x = 0, pos_y = - 50\<rparr>), (1, \<lparr>pos_x = 260, pos_y = - 50\<rparr>),
                    (2, \<lparr>pos_x = 520, pos_y = - 50\<rparr>)])"
proof -
  have h: "(3 :: nat) \<le> 3" by simp
  have k: "map_option (\<lambda>s. keys (levelGroups s)) (run_traversal (chain_steps 3) (chain_deps 3))
       = Some [0, 1, 2]"
    by code_simp
  have r: "buildLayout_checked 4 (chain_steps 3) (chain_deps 3)
       = Some (Inr [(0, \<lparr>pos_x = 0, pos_y = - 50\<rparr>), (1, \<lparr>pos_x = 260, pos_y = - 50\<rparr>),
                    (2, \<lparr>pos_x = 520, pos_y = - 50\<rparr>)])"
    by code_simp
  from chain_raises_RangeError [OF h] h k r show ?thesis by blast
qed

section \<open>Instances\<close>

lemma diamond_run: "run_traversal diamond_steps diamond_deps = Some diamond_final"
  by code_simp

lemma diamond_lay: "buildLayout diamond_steps diamond_deps = Some diamond_positions"
  by code_simp

lemma lasso_run: "run_traversal lasso_steps lasso_deps = Some lasso_final"
  by code_simp

lemma lasso_lay: "buildLayout lasso_steps lasso_deps = Some lasso_positions"
  by code_simp

lemma cycle_run: "run_traversal cycle_steps cycle_deps = Some cycle_final"
  by code_simp

lemma cycle_lay: "buildLayout cycle_steps cycle_deps = Some cycle_positions"
  by code_simp


text \<open>
  At the fully cyclic input \<open>A \<rightarrow> B \<rightarrow> A\<close> nothing is ever enqueued, the loop returns at once,
  and both \<open>A\<close> and \<open>B\<close> receive a position from the fallback.
\<close>

theorem buildLayout_terminates_witness:
  "step_with_id 1 \<in> set cycle_steps \<and> step_with_id 2 \<in> set cycle_steps
   \<and> run_traversal cycle_steps cycle_deps = Some cycle_final
   \<and> buildLayout cycle_steps cycle_deps = Some cycle_positions
   \<and> head cycle_final = length (queue cycle_final) \<and> distinct (queue cycle_final)
   \<and> has cycle_positions 1 \<and> has cycle_positions 2"
proof -
  have m: "step_with_id 1 \<in> set cycle_steps" "step_with_id 2 \<in> set cycle_steps"
    by (simp_all add: cycle_steps_def)
  obtain s pos where p: "run_traversal cycle_steps cycle_deps = Some s"
      "buildLayout cycle_steps cycle_deps = Some pos"
      "head s = length (queue s)" "distinct (queue s)"
      "\<forall>st \<in> set cycle_steps. has pos (step_id st)"
    using buildLayout_terminates [of cycle_steps cycle_deps] by blast
  have s: "s = cycle_final" and pos: "pos = cycle_positions"
    using p(1,2) cycle_run cycle_lay by simp_all
  from p(5) m have "has pos (step_id (step_with_id 1))" "has pos (step_id (step_with_id 2))"
    by blast+
  then have "has cycle_positions 1" "has cycle_positions 2"
    unfolding pos by (simp_all add: step_with_id_def)
  with m p(3,4) cycle_run cycle_lay show ?thesis unfolding s by blast
qed

text \<open>
  C6 at the diamond, bucket \<open>(1, [B, C])\<close>: \<open>T = 260\<close>, \<open>B\<close> is stored at \<open>(260, -130)\<close> and
  \<open>C\<close> at \<open>(260, 30)\<close>.
\<close>

theorem bucket_layout_witness:
  "run_traversal diamond_steps diamond_deps = Some diamond_final
   \<and> buildLayout diamond_steps diamond_deps = Some diamond_positions
   \<and> (1, [2, 3]) \<in> set (levelGroups diamond_final)
   \<and> map_of diamond_positions 2 = Some \<lparr>pos_x = 260, pos_y = - 130\<rparr>
   \<and> map_of diamond_positions 3 = Some \<lparr>pos_x = 260, pos_y = 30\<rparr>
   \<and> totalH [2, 3] = 260"
proof -
  have g: "(1, [2, 3]) \<in> set (levelGroups diamond_final)" by (simp add: diamond_final_def)
  note t = bucket_layout [OF diamond_run diamond_lay g]
  from t have f: "\<forall>i < length [2, 3 :: int]. map_of diamond_positions ([2, 3] ! i) =
      Some \<lparr>pos_x = 1 * (NODE_W + GAP_X),
            pos_y = int i * (NODE_H + GAP_Y) - totalH [2, 3] div 2\<rparr>"
    and h: "totalH [2, 3] = int (length [2, 3 :: int]) * (NODE_H + GAP_Y) - GAP_Y"
    by blast+
  from h have th: "totalH [2, 3] = 260" by (simp add: NODE_H_def GAP_Y_def)
  have "map_of diamond_positions 2 = Some \<lparr>pos_x = 260, pos_y = - 130\<rparr>"
    using f [rule_format, of 0] unfolding th by (simp add: NODE_W_def GAP_X_def NODE_H_def GAP_Y_def)
  moreover have "map_of diamond_positions 3 = Some \<lparr>pos_x = 260, pos_y = 30\<rparr>"
    using f [rule_format, of 1] unfolding th by (simp add: NODE_W_def GAP_X_def NODE_H_def GAP_Y_def)
  ultimately have "map_of diamond_positions 2 = Some \<lparr>pos_x = 260, pos_y = - 130\<rparr>"
    "map_of diamond_positions 3 = Some \<lparr>pos_x = 260, pos_y = 30\<rparr>" by blast+
  with diamond_run diamond_lay g th show ?thesis by blast
qed

text \<open>
  C9 at the fed cycle: the two fallback nodes \<open>1\<close> and \<open>2\<close> both have \<open>y = 0\<close> and are
  \<open>260\<close> apart in \<open>x\<close>.
\<close>

theorem layout_no_overlap_witness:
  "buildLayout lasso_steps lasso_deps = Some lasso_positions
   \<and> (1, \<lparr>pos_x = 260, pos_y = 0\<rparr>) \<in> set lasso_positions
   \<and> (2, \<lparr>pos_x = 520, pos_y = 0\<rparr>) \<in> set lasso_positions
   \<and> NODE_W + GAP_X \<le> \<bar>260 - 520 :: int\<bar>
   \<and> \<lparr>pos_x = 260, pos_y = 0\<rparr> \<noteq> \<lparr>pos_x = 520, pos_y = 0\<rparr>"
proof -
  have a: "(1, \<lparr>pos_x = 260, pos_y = 0\<rparr>) \<in> set lasso_positions"
    and b: "(2, \<lparr>pos_x = 520, pos_y = 0\<rparr>) \<in> set lasso_positions"
    by (simp_all add: lasso_positions_def)
  have ne: "(1 :: int, \<lparr>pos_x = 260, pos_y = 0\<rparr>) \<noteq> (2, \<lparr>pos_x = 520, pos_y = 0\<rparr>)" by simp
  from layout_no_overlap [OF lasso_lay a b ne]
  have "NODE_W + GAP_X \<le> \<bar>260 - 520 :: int\<bar>"
    "\<lparr>pos_x = 260, pos_y = 0\<rparr> \<noteq> \<lparr>pos_x = 520, pos_y = 0\<rparr>"
    by (simp_all add: NODE_H_def GAP_Y_def)
  with lasso_lay a b show ?thesis by blast
qed

text \<open>
  C8 at the fed cycle, step \<open>2\<close>: \<open>maxLevel = 0\<close>, one fallback node (step \<open>1\<close>) precedes
  it, and it is stored at \<open>x = 2 \<cdot> 260\<close>, \<open>y = 0\<close>.
\<close>

theorem fallback_placement_witness:
  "run_traversal lasso_steps lasso_deps = Some lasso_final
   \<and> buildLayout lasso_steps lasso_deps = Some lasso_positions
   \<and> 2 < length lasso_steps
   \<and> step_id (lasso_steps ! 2) \<notin> set (queue lasso_final)
   \<and> step_id (lasso_steps ! 2) \<notin> step_id ` set (take 2 lasso_steps)
   \<and> map_of lasso_positions 2 = Some \<lparr>pos_x = 520, pos_y = 0\<rparr>
   \<and> maxLevel_of (levelGroups lasso_final) = 0
   \<and> card (step_id ` set (take 2 lasso_steps) - set (queue lasso_final)) = 1"
proof -
  have i: "2 < length lasso_steps" by (simp add: lasso_steps_def)
  have nq: "step_id (lasso_steps ! 2) \<notin> set (queue lasso_final)"
    by (simp add: lasso_steps_def lasso_final_def step_with_id_def)
  have first: "step_id (lasso_steps ! 2) \<notin> step_id ` set (take 2 lasso_steps)"
    by (simp add: lasso_steps_def step_with_id_def numeral_2_eq_2)
  have k: "step_id (lasso_steps ! 2) = 2" by (simp add: lasso_steps_def step_with_id_def)
  have mx: "maxLevel_of (levelGroups lasso_final) = 0"
    by (simp add: maxLevel_of_def keys_def lasso_final_def)
  have "step_id ` set (take 2 lasso_steps) - set (queue lasso_final) = {1}"
    by (auto simp: lasso_steps_def lasso_final_def step_with_id_def numeral_2_eq_2)
  then have c: "card (step_id ` set (take 2 lasso_steps) - set (queue lasso_final)) = 1" by simp
  from fallback_placement [OF lasso_run lasso_lay i nq first]
  have "map_of lasso_positions 2 = Some \<lparr>pos_x = 520, pos_y = 0\<rparr>"
    unfolding k mx c by (simp add: NODE_W_def GAP_X_def)
  with lasso_run lasso_lay i nq first mx c show ?thesis by blast
qed


text \<open>
  C5 at the node \<open>D\<close> of the diamond: level \<open>2\<close>, a path of \<open>2\<close> edges from the source \<open>A\<close>,
  none of \<open>3\<close>.
\<close>

theorem level_is_longest_path_witness:
  "run_traversal diamond_steps diamond_deps = Some diamond_final
   \<and> (2, [4]) \<in> set (levelGroups diamond_final) \<and> 4 \<in> set [4 :: int]
   \<and> 4 \<in> step_id ` set diamond_steps
   \<and> (\<exists>u. is_source diamond_steps diamond_deps u
         \<and> path (restricted_edges diamond_steps diamond_deps) u 2 4)
   \<and> is_source diamond_steps diamond_deps 1
   \<and> path (restricted_edges diamond_steps diamond_deps) 1 2 4
   \<and> \<not> path (restricted_edges diamond_steps diamond_deps) 1 3 4"
proof -
  have g: "(2, [4]) \<in> set (levelGroups diamond_final)" "4 \<in> set [4 :: int]"
    by (simp_all add: diamond_final_def)
  have n: "4 \<in> step_id ` set diamond_steps" by (simp add: diamond_steps_def step_with_id_def)
  from level_is_longest_path [OF diamond_run g n]
  have e: "\<exists>u. is_source diamond_steps diamond_deps u
         \<and> path (restricted_edges diamond_steps diamond_deps) u 2 4"
    by (simp add: numeral_2_eq_2)
  have s: "is_source diamond_steps diamond_deps 1" by code_simp
  have p: "path (restricted_edges diamond_steps diamond_deps) 1 2 4" by code_simp
  have q: "\<not> path (restricted_edges diamond_steps diamond_deps) 1 3 4" by code_simp
  from diamond_run g n e s p q show ?thesis by blast
qed


lemma phantom_run: "run_traversal phantom_steps phantom_deps = Some phantom_final"
  by code_simp

lemma phantom_lay: "buildLayout phantom_steps phantom_deps = Some phantom_positions"
  by code_simp

text \<open>
  C10 as stated fails at steps \<open>1, 2\<close> with dependencies \<open>99 \<rightarrow> 3\<close>, \<open>1 \<rightarrow> 3\<close>, \<open>1 \<rightarrow> 2\<close>. The
  source of \<open>1 \<rightarrow> 3\<close> is a step and is dequeued at level \<open>0\<close>, the target \<open>3\<close> is no step,
  and the adjacency push has taken place. Line 250 has set the in-degree of \<open>3\<close> to \<open>2\<close>,
  the traversal decrements it once, to \<open>1\<close>, and \<open>3\<close> is never enqueued, never
  put into a bucket and has no entry in the returned map.
\<close>

theorem blocked_target_not_placed:
  "edge 1 3 \<in> set blocked_deps
   \<and> source_step_id (edge 1 3) \<in> step_id ` set blocked_steps
   \<and> target_step_id (edge 1 3) \<notin> step_id ` set blocked_steps
   \<and> bucket_of (run_traversal blocked_steps blocked_deps) (source_step_id (edge 1 3)) = Some 0
   \<and> bucket_of (run_traversal blocked_steps blocked_deps) (target_step_id (edge 1 3)) = None
   \<and> map_option (\<lambda>s. map_of (inDeg s) 3) (run_traversal blocked_steps blocked_deps)
       = Some (Some 1)
   \<and> map_option (\<lambda>pos. has pos (target_step_id (edge 1 3)))
         (buildLayout blocked_steps blocked_deps) = Some False
   \<and> buildLayout blocked_steps blocked_deps
       = Some [(1, \<lparr>pos_x = 0, pos_y = - 50\<rparr>), (2, \<lparr>pos_x = 260, pos_y = - 50\<rparr>)]"
  by code_simp

text \<open>
  C10, amended. An identifier \<open>k\<close> that is not the identifier of any step has an entry in
  the returned map exactly when some dependency has the target \<open>k\<close> and every dependency
  with the target \<open>k\<close> has a source that is a step and was dequeued by the traversal. In
  that case \<open>k\<close> was dequeued into a bucket of level at least \<open>1\<close> and is stored in the slot
  of its index in that bucket. The in-degree of \<open>k\<close> that the traversal counts down is the
  number of dependencies with the target \<open>k\<close>, stored by line 250. Such entries do occur:
  with steps \<open>1, 2\<close> and dependencies \<open>1 \<rightarrow> 3\<close>, \<open>1 \<rightarrow> 2\<close> the identifier \<open>3\<close> is no step, its
  source \<open>1\<close> is dequeued at level \<open>0\<close>, and \<open>3\<close> is put into the bucket of level \<open>1\<close> and
  stored at \<open>(260, -130)\<close>; the step \<open>2\<close> shares that bucket and is stored at \<open>y = 30\<close>,
  where without the dangling dependency it is stored at \<open>y = -50\<close>.
\<close>

theorem dangling_target_placed:
  "(run_traversal steps deps = Some s \<and> buildLayout steps deps = Some pos
      \<and> k \<notin> step_id ` set steps
    \<longrightarrow>
      (has pos k \<longleftrightarrow>
            (\<exists>d \<in> set deps. target_step_id d = k)
          \<and> (\<forall>d \<in> set deps. target_step_id d = k \<longrightarrow>
                source_step_id d \<in> step_id ` set steps \<and> source_step_id d \<in> set (queue s)))
       \<and> (has pos k \<longrightarrow> k \<in> set (queue s) \<and>
            (\<exists>l g i. (l, g) \<in> set (levelGroups s) \<and> i < length g \<and> g ! i = k \<and> 1 \<le> l
               \<and> map_of pos k = Some \<lparr>pos_x = l * (NODE_W + GAP_X),
                    pos_y = int i * (NODE_H + GAP_Y) - totalH g div 2\<rparr>))
       \<and> (\<forall>adjOut I0. build_graph steps deps = (adjOut, I0) \<and> (\<exists>d \<in> set deps. target_step_id d = k)
             \<longrightarrow> map_of I0 k = Some (int (length (filter (\<lambda>d. target_step_id d = k) deps)))))
   \<and> 3 \<notin> step_id ` set phantom_steps
   \<and> bucket_of (run_traversal phantom_steps phantom_deps) 1 = Some 0
   \<and> bucket_of (run_traversal phantom_steps phantom_deps) 3 = Some 1
   \<and> bucket_of (run_traversal phantom_steps phantom_deps) 2 = Some 1
   \<and> buildLayout phantom_steps phantom_deps
       = Some [(1, \<lparr>pos_x = 0, pos_y = - 50\<rparr>), (3, \<lparr>pos_x = 260, pos_y = - 130\<rparr>),
               (2, \<lparr>pos_x = 260, pos_y = 30\<rparr>)]
   \<and> buildLayout phantom_steps [edge 1 2]
       = Some [(1, \<lparr>pos_x = 0, pos_y = - 50\<rparr>), (2, \<lparr>pos_x = 260, pos_y = - 50\<rparr>)]"
proof -
  have inst: "3 \<notin> step_id ` set phantom_steps
   \<and> bucket_of (run_traversal phantom_steps phantom_deps) 1 = Some 0
   \<and> bucket_of (run_traversal phantom_steps phantom_deps) 3 = Some 1
   \<and> bucket_of (run_traversal phantom_steps phantom_deps) 2 = Some 1
   \<and> buildLayout phantom_steps phantom_deps
       = Some [(1, \<lparr>pos_x = 0, pos_y = - 50\<rparr>), (3, \<lparr>pos_x = 260, pos_y = - 130\<rparr>),
               (2, \<lparr>pos_x = 260, pos_y = 30\<rparr>)]
   \<and> buildLayout phantom_steps [edge 1 2]
       = Some [(1, \<lparr>pos_x = 0, pos_y = - 50\<rparr>), (2, \<lparr>pos_x = 260, pos_y = - 50\<rparr>)]"
    by code_simp
  from foreign_key_iff [of steps deps s pos k] inst show ?thesis by blast
qed

text \<open>
  C10, amended, at steps \<open>1, 2\<close> and dependencies \<open>1 \<rightarrow> 3\<close>, \<open>1 \<rightarrow> 2\<close>: the only dependency
  into \<open>3\<close> has the dequeued step \<open>1\<close> as its source, so \<open>3\<close> has an entry, at \<open>(260, -130)\<close>.
\<close>

theorem dangling_target_placed_witness:
  "run_traversal phantom_steps phantom_deps = Some phantom_final
   \<and> buildLayout phantom_steps phantom_deps = Some phantom_positions
   \<and> 3 \<notin> step_id ` set phantom_steps
   \<and> edge 1 3 \<in> set phantom_deps
   \<and> has phantom_positions 3 \<and> 3 \<in> set (queue phantom_final)
   \<and> (\<exists>l g i. (l, g) \<in> set (levelGroups phantom_final) \<and> i < length g \<and> g ! i = 3 \<and> 1 \<le> l
         \<and> map_of phantom_positions 3 = Some \<lparr>pos_x = l * (NODE_W + GAP_X),
              pos_y = int i * (NODE_H + GAP_Y) - totalH g div 2\<rparr>)
   \<and> map_of phantom_positions 3 = Some \<lparr>pos_x = 260, pos_y = - 130\<rparr>"
proof -
  have n: "3 \<notin> step_id ` set phantom_steps" by (simp add: phantom_steps_def step_with_id_def)
  have e: "edge 1 3 \<in> set phantom_deps" by (simp add: phantom_deps_def)
  have ex: "\<exists>d \<in> set phantom_deps. target_step_id d = 3"
    by (simp add: phantom_deps_def edge_def)
  have all: "\<forall>d \<in> set phantom_deps. target_step_id d = 3 \<longrightarrow>
      source_step_id d \<in> step_id ` set phantom_steps \<and> source_step_id d \<in> set (queue phantom_final)"
    by (simp add: phantom_deps_def edge_def phantom_steps_def step_with_id_def phantom_final_def)
  note t = dangling_target_placed [of phantom_steps phantom_deps phantom_final phantom_positions 3]
  from t phantom_run phantom_lay n ex all have h: "has phantom_positions 3" by blast
  with t phantom_run phantom_lay n have q: "3 \<in> set (queue phantom_final)" by blast
  from h t phantom_run phantom_lay n
  have b: "\<exists>l g i. (l, g) \<in> set (levelGroups phantom_final) \<and> i < length g \<and> g ! i = 3 \<and> 1 \<le> l
         \<and> map_of phantom_positions 3 = Some \<lparr>pos_x = l * (NODE_W + GAP_X),
              pos_y = int i * (NODE_H + GAP_Y) - totalH g div 2\<rparr>"
    by blast
  have p: "map_of phantom_positions 3 = Some \<lparr>pos_x = 260, pos_y = - 130\<rparr>"
    by (simp add: phantom_positions_def)
  from phantom_run phantom_lay n e h q b p show ?thesis by blast
qed

subsection \<open>The diamond and a dangling source\<close>

text \<open>
  C7, as stated, asks that the y-coordinates of \<open>B\<close> and \<open>C\<close> in the diamond be symmetric
  about \<open>y = 0\<close>. The code stores \<open>y(B) = -130\<close> and \<open>y(C) = 30\<close>: the stored coordinate is
  the top edge of a node of height \<open>NODE_H\<close>, and \<open>-130\<close> is not the mirror image of \<open>30\<close>.
\<close>

theorem diamond_y_not_symmetric:
  "y_of (buildLayout diamond_steps diamond_deps) 2 = Some (- 130)
   \<and> y_of (buildLayout diamond_steps diamond_deps) 3 = Some 30
   \<and> y_of (buildLayout diamond_steps diamond_deps) 2
       \<noteq> map_option uminus (y_of (buildLayout diamond_steps diamond_deps) 3)"
  by code_simp

text \<open>
  C7, amended: in the diamond the buckets are \<open>A = 0\<close>, \<open>B = C = 1\<close>, \<open>D = 2\<close>; the
  x-coordinates are \<open>0\<close>, \<open>W + Gx\<close>, \<open>W + Gx\<close>, \<open>2 (W + Gx)\<close>; \<open>B\<close> and \<open>C\<close> are
  \<open>H + Gy\<close> apart, and the vertical extent of the column, from \<open>y(B)\<close> to \<open>y(C) + H\<close>, is
  symmetric about \<open>y = 0\<close>.
\<close>

theorem diamond_layout:
  "bucket_of (run_traversal diamond_steps diamond_deps) 1 = Some 0
   \<and> bucket_of (run_traversal diamond_steps diamond_deps) 2 = Some 1
   \<and> bucket_of (run_traversal diamond_steps diamond_deps) 3 = Some 1
   \<and> bucket_of (run_traversal diamond_steps diamond_deps) 4 = Some 2
   \<and> x_of (buildLayout diamond_steps diamond_deps) 1 = Some 0
   \<and> x_of (buildLayout diamond_steps diamond_deps) 2 = Some (NODE_W + GAP_X)
   \<and> x_of (buildLayout diamond_steps diamond_deps) 3 = Some (NODE_W + GAP_X)
   \<and> x_of (buildLayout diamond_steps diamond_deps) 4 = Some (2 * (NODE_W + GAP_X))
   \<and> y_of (buildLayout diamond_steps diamond_deps) 3
       = map_option (\<lambda>yB. yB + (NODE_H + GAP_Y)) (y_of (buildLayout diamond_steps diamond_deps) 2)
   \<and> y_of (buildLayout diamond_steps diamond_deps) 2
       = map_option (\<lambda>yC. - (yC + NODE_H)) (y_of (buildLayout diamond_steps diamond_deps) 3)"
  by code_simp

text \<open>
  C3 at the input \<open>steps = [1]\<close>, \<open>deps = [99 \<rightarrow> 1]\<close>: the source \<open>99\<close> is not a step. The
  adjacency push is skipped, but the in-degree of \<open>1\<close> is still incremented, so \<open>1\<close> is
  never dequeued and is placed by the fallback in column \<open>1\<close>; without the edge it is in
  column \<open>0\<close>.
\<close>

theorem dangling_source_changes_level:
  "buildLayout [step_with_id 1] [edge 99 1] = Some [(1, \<lparr>pos_x = 260, pos_y = 0\<rparr>)]
   \<and> bucket_of (run_traversal [step_with_id 1] [edge 99 1]) 1 = None
   \<and> buildLayout [step_with_id 1] [] = Some [(1, \<lparr>pos_x = 0, pos_y = - 50\<rparr>)]
   \<and> bucket_of (run_traversal [step_with_id 1] []) 1 = Some 0"
  by code_simp

end
